theory Spec2Isabelle
  imports Complex_Main "HOL-Library.Multiset" "HOL-Library.Product_Lexorder"
begin

section \<open>Time driver (core/timeline.py)\<close>

text \<open>
  The class \<open>Timeline\<close> keeps five integer and boolean fields. The return value of
  \<open>step\<close> is one of four literal strings, modelled as the datatype \<open>event\<close>.
  Python integers are unbounded, hence \<open>int\<close>.
\<close>

datatype event = Settlement | Trading | Period_end | Finished

record Timeline =
  total_periods :: int
  rounds_per_period :: int
  current_period :: int
  current_round :: int
  finished :: bool

definition Timeline_init :: "int \<Rightarrow> int \<Rightarrow> Timeline" where
  "Timeline_init tp rpp =
     \<lparr>total_periods = tp, rounds_per_period = rpp,
      current_period = 1, current_round = - 1, finished = False\<rparr>"

text \<open>\<open>step\<close> mutates the object and returns the event; the model returns both.\<close>

definition step :: "Timeline \<Rightarrow> event \<times> Timeline" where
  "step tm =
     (if finished tm then (Finished, tm)
      else if current_round tm = 0 then (Trading, tm\<lparr>current_round := 1\<rparr>)
      else if 1 \<le> current_round tm \<and> current_round tm < rounds_per_period tm
        then (Trading, tm\<lparr>current_round := current_round tm + 1\<rparr>)
      else if current_round tm = rounds_per_period tm
        then (Period_end, tm\<lparr>current_round := current_round tm + 1\<rparr>)
      else if current_round tm > rounds_per_period tm then
        (if current_period tm \<ge> total_periods tm then (Finished, tm\<lparr>finished := True\<rparr>)
         else (Settlement, tm\<lparr>current_period := current_period tm + 1, current_round := 0\<rparr>))
      else (Finished, tm))"

text \<open>The events returned by \<open>n\<close> successive calls of \<open>step\<close>.\<close>

fun step_trace :: "nat \<Rightarrow> Timeline \<Rightarrow> event list" where
  "step_trace 0 tm = []"
| "step_trace (Suc n) tm = (case step tm of (ev, tm') \<Rightarrow> ev # step_trace n tm')"

section \<open>Errors\<close>

text \<open>
  A raised Python exception is a value of type \<open>error\<close>. \<open>ValueError\<close> carries the
  fixed part of the message of the \<open>raise\<close> statement that produced it.
\<close>

datatype error = ValueError string | IndexError | TypeError

section \<open>Account ledger (core/state.py)\<close>

text \<open>
  Python \<open>float\<close> values are idealised as \<open>real\<close> numbers throughout: the claims below
  concern control flow and bookkeeping, not rounding. Python \<open>int\<close> is \<open>int\<close>.
\<close>

record PendingTransfer =
  release_time :: int
  cash_delta :: real
  stock_delta :: int

record AccountState =
  cash :: real
  stock :: int
  pending_transfers :: "PendingTransfer list"
  budget_policy :: string
  equity_includes_pending :: bool
  exposure_includes_pending :: bool
  last_wealth :: "real option"

text \<open>
  The constructor only stores its arguments; its body contains no \<open>raise\<close>. It is given a
  result of type \<open>error + AccountState\<close> so that "construction raises" can be stated.
\<close>

definition AccountState_init ::
    "real \<Rightarrow> int \<Rightarrow> string \<Rightarrow> bool \<Rightarrow> bool \<Rightarrow> error + AccountState" where
  "AccountState_init initial_cash initial_stock policy eq_pending exp_pending =
     Inr \<lparr>cash = initial_cash, stock = initial_stock, pending_transfers = [],
          budget_policy = policy, equity_includes_pending = eq_pending,
          exposure_includes_pending = exp_pending, last_wealth = None\<rparr>"

text \<open>Python's builtin \<open>sum\<close>: starts from 0 and adds the items from left to right.\<close>

definition py_sum :: "'a::monoid_add list \<Rightarrow> 'a" where
  "py_sum xs = foldl (+) 0 xs"

text \<open>The literal \<open>1e-9\<close>.\<close>

definition budget_tolerance :: real where
  "budget_tolerance = 1 / 1000000000"

text \<open>
  \<open>check_budget_constraint\<close> assigns to no attribute of \<open>self\<close>: it is a function of the
  state and the two deltas that returns a boolean or raises.
\<close>

definition check_budget_constraint :: "AccountState \<Rightarrow> real \<Rightarrow> int \<Rightarrow> error + bool" where
  "check_budget_constraint s cd sd =
     (if budget_policy s = ''strict_available'' then
        (let base_cash = cash s; base_stock = stock s;
             final_cash = base_cash + cd; final_stock = base_stock + sd
         in Inr (final_cash \<ge> - budget_tolerance \<and> final_stock \<ge> 0))
      else if budget_policy s = ''include_pending'' then
        (let base_cash = cash s + py_sum (map cash_delta (pending_transfers s));
             base_stock = stock s + py_sum (map stock_delta (pending_transfers s));
             final_cash = base_cash + cd; final_stock = base_stock + sd
         in Inr (final_cash \<ge> - budget_tolerance \<and> final_stock \<ge> 0))
      else Inl (ValueError ''Unknown budget_policy''))"

text \<open>
  \<open>apply_trade\<close> mutates \<open>self\<close> or raises. The model returns the exception, if any, and
  the state of the object when the call ends.
\<close>

definition apply_trade ::
    "AccountState \<Rightarrow> real \<Rightarrow> int \<Rightarrow> int \<Rightarrow> int \<Rightarrow> bool \<Rightarrow> error option \<times> AccountState" where
  "apply_trade s cd sd current_time settlement_lag enforce_budget =
     (let body =
        (if settlement_lag = 0 then
           (None, s\<lparr>cash := cash s + cd, stock := stock s + sd\<rparr>)
         else
           (let transfer = \<lparr>release_time = current_time + settlement_lag,
                            cash_delta = cd, stock_delta = sd\<rparr>
            in (None, s\<lparr>pending_transfers := pending_transfers s @ [transfer]\<rparr>)))
      in if enforce_budget then
           (case check_budget_constraint s cd sd of
              Inl e \<Rightarrow> (Some e, s)
            | Inr ok \<Rightarrow> if \<not> ok then (Some (ValueError ''Budget constraint violated!''), s)
                        else body)
         else body)"

text \<open>The \<open>for\<close> loop of \<open>process_settlements\<close> over the pending list.\<close>

fun settle_loop ::
    "int \<Rightarrow> PendingTransfer list \<Rightarrow> real \<times> int \<times> PendingTransfer list
       \<Rightarrow> real \<times> int \<times> PendingTransfer list" where
  "settle_loop current_time [] acc = acc"
| "settle_loop current_time (transfer # rest) (c, k, remaining_list) =
     (if current_time \<ge> release_time transfer
      then settle_loop current_time rest
             (c + cash_delta transfer, k + stock_delta transfer, remaining_list)
      else settle_loop current_time rest (c, k, remaining_list @ [transfer]))"

definition process_settlements :: "AccountState \<Rightarrow> int \<Rightarrow> AccountState" where
  "process_settlements s current_time =
     (if pending_transfers s = [] then s
      else (case settle_loop current_time (pending_transfers s) (cash s, stock s, []) of
              (c, k, remaining_list) \<Rightarrow>
                s\<lparr>cash := c, stock := k, pending_transfers := remaining_list\<rparr>))"

text \<open>A concrete account for the examples: 100 in cash, 10 shares, nothing pending.\<close>

definition example_account :: AccountState where
  "example_account =
     \<lparr>cash = 100, stock = 10, pending_transfers = [],
      budget_policy = ''strict_available'', equity_includes_pending = True,
      exposure_includes_pending = True, last_wealth = None\<rparr>"

section \<open>Orders and book entries (agents/base.py, market/orderbook.py)\<close>

text \<open>
  \<open>Order\<close> is a named tuple, \<open>BookEntry\<close> a dataclass. Both \<open>Order\<close> and \<open>BookEntry\<close>
  have a field called \<open>price\<close>; the one of \<open>BookEntry\<close> is \<open>entry_price\<close> here. Equality of
  two records is equality of all fields, as \<open>==\<close> is for the tuple and the dataclass.
\<close>

record Order =
  agent_id :: int
  direction :: int
  order_type :: string
  price :: real
  quantity :: int

record BookEntry =
  entry_price :: real
  timestamp :: int
  order :: Order
  remaining :: int

section \<open>Binary heap on a list (Python's heapq, used by the order book)\<close>

text \<open>
  The book pushes tuples \<open>(priority_price, timestamp, entry)\<close>. Python compares two
  tuples at the first position where they differ. When price and timestamp agree and
  the entries differ, the entries themselves are compared with \<open><\<close>, which the dataclass
  (declared with \<open>order=False\<close>) does not define: \<open>TypeError\<close>.
\<close>

type_synonym heap_item = "real \<times> int \<times> BookEntry"

definition item_lt :: "heap_item \<Rightarrow> heap_item \<Rightarrow> error + bool" where
  "item_lt a b =
     (case a of (p1, t1, e1) \<Rightarrow> case b of (p2, t2, e2) \<Rightarrow>
        if p1 \<noteq> p2 then Inr (p1 < p2)
        else if t1 \<noteq> t2 then Inr (t1 < t2)
        else if e1 = e2 then Inr False
        else Inl TypeError)"

text \<open>
  The \<open>while\<close> loop of \<open>_siftdown\<close>: follow the path to the root, moving parents down
  until \<open>newitem\<close> fits. \<open>(pos - 1) >> 1\<close> is \<open>(pos - 1) div 2\<close>.
\<close>

function siftdown_loop ::
    "heap_item list \<Rightarrow> nat \<Rightarrow> heap_item \<Rightarrow> nat \<Rightarrow> error + heap_item list" where
  "siftdown_loop heap startpos newitem pos =
     (if pos > startpos then
        (let parentpos = (pos - 1) div 2; parent = heap ! parentpos in
         case item_lt newitem parent of
           Inl e \<Rightarrow> Inl e
         | Inr is_less \<Rightarrow>
             if is_less then siftdown_loop (heap[pos := parent]) startpos newitem parentpos
             else Inr (heap[pos := newitem]))
      else Inr (heap[pos := newitem]))"
  by pat_completeness auto
termination
  by (relation "measure (\<lambda>(heap, startpos, newitem, pos). pos)") auto

declare siftdown_loop.simps [simp del]

definition siftdown :: "heap_item list \<Rightarrow> nat \<Rightarrow> nat \<Rightarrow> error + heap_item list" where
  "siftdown heap startpos pos =
     (if pos < length heap then siftdown_loop heap startpos (heap ! pos) pos
      else Inl IndexError)"

text \<open>
  One round of the loop of \<open>_siftup\<close> first picks the index of the smaller child; the
  right child is compared only when it exists.
\<close>

definition smaller_child :: "heap_item list \<Rightarrow> nat \<Rightarrow> nat \<Rightarrow> error + nat" where
  "smaller_child heap endpos childpos =
     (let rightpos = childpos + 1 in
      if rightpos < endpos then
        (case item_lt (heap ! childpos) (heap ! rightpos) of
           Inl e \<Rightarrow> Inl e
         | Inr is_less \<Rightarrow> Inr (if \<not> is_less then rightpos else childpos))
      else Inr childpos)"

lemma smaller_child_range:
  "smaller_child heap endpos childpos = Inr c \<Longrightarrow> childpos < endpos \<Longrightarrow>
     c < endpos \<and> (c = childpos \<or> c = childpos + 1)"
  by (auto simp: smaller_child_def Let_def split: if_splits sum.splits)

text \<open>
  The loop of \<open>_siftup\<close>: bubble the smaller child up until a leaf is reached. It returns
  the list and the position of the leaf that is now free.
\<close>

function siftup_loop ::
    "heap_item list \<Rightarrow> nat \<Rightarrow> nat \<Rightarrow> error + heap_item list \<times> nat" where
  "siftup_loop heap endpos pos =
     (if 2 * pos + 1 < endpos then
        (case smaller_child heap endpos (2 * pos + 1) of
           Inl e \<Rightarrow> Inl e
         | Inr childpos \<Rightarrow> siftup_loop (heap[pos := heap ! childpos]) endpos childpos)
      else Inr (heap, pos))"
  by pat_completeness auto
termination
proof (relation "measure (\<lambda>(heap, endpos, pos). endpos - pos)")
  show "wf (measure (\<lambda>(heap, endpos, pos). endpos - pos))"
    by simp
next
  fix heap :: "heap_item list" and endpos pos childpos
  assume "2 * pos + 1 < endpos" "smaller_child heap endpos (2 * pos + 1) = Inr childpos"
  then show "((heap[pos := heap ! childpos], endpos, childpos), heap, endpos, pos)
     \<in> measure (\<lambda>(heap, endpos, pos). endpos - pos)"
    using smaller_child_range [of heap endpos "2 * pos + 1" childpos] by auto
qed

declare siftup_loop.simps [simp del]

definition siftup :: "heap_item list \<Rightarrow> nat \<Rightarrow> error + heap_item list" where
  "siftup heap pos =
     (if pos < length heap then
        (let endpos = length heap; startpos = pos; newitem = heap ! pos in
         case siftup_loop heap endpos pos of
           Inl e \<Rightarrow> Inl e
         | Inr (heap', pos') \<Rightarrow> siftdown (heap'[pos' := newitem]) startpos pos')
      else Inl IndexError)"

definition heappush :: "heap_item list \<Rightarrow> heap_item \<Rightarrow> error + heap_item list" where
  "heappush heap item = siftdown (heap @ [item]) 0 (length (heap @ [item]) - 1)"

text \<open>\<open>heap.pop()\<close> on an empty list raises \<open>IndexError\<close>.\<close>

definition heappop :: "heap_item list \<Rightarrow> error + heap_item \<times> heap_item list" where
  "heappop heap =
     (if heap = [] then Inl IndexError
      else
        (let lastelt = last heap; heap1 = butlast heap in
         if heap1 \<noteq> [] then
           (let returnitem = heap1 ! 0 in
            case siftup (heap1[0 := lastelt]) 0 of
              Inl e \<Rightarrow> Inl e
            | Inr heap2 \<Rightarrow> Inr (returnitem, heap2))
         else Inr (lastelt, heap1)))"


text \<open>None of the heap routines changes the length of the list it works on.\<close>

lemma length_siftdown_loop:
  "siftdown_loop heap startpos newitem pos = Inr h \<Longrightarrow> length h = length heap"
proof (induction heap startpos newitem pos rule: siftdown_loop.induct)
  case (1 heap startpos newitem pos)
  show ?case
  proof (cases "pos > startpos")
    case False
    with "1.prems" show ?thesis
      by (subst (asm) siftdown_loop.simps) auto
  next
    case True
    with "1.prems" "1.IH" show ?thesis
      by (subst (asm) siftdown_loop.simps)
         (auto simp: Let_def split: sum.splits if_splits)
  qed
qed

lemma length_siftdown:
  "siftdown heap startpos pos = Inr h \<Longrightarrow> length h = length heap"
  by (auto simp: siftdown_def length_siftdown_loop split: if_splits)

lemma length_siftup_loop:
  "siftup_loop heap endpos pos = Inr (h, q) \<Longrightarrow> length h = length heap"
proof (induction heap endpos pos rule: siftup_loop.induct)
  case (1 heap endpos pos)
  show ?case
  proof (cases "2 * pos + 1 < endpos")
    case False
    with "1.prems" show ?thesis
      by (subst (asm) siftup_loop.simps) auto
  next
    case True
    with "1.prems" "1.IH" show ?thesis
      by (subst (asm) siftup_loop.simps) (auto split: sum.splits)
  qed
qed

lemma length_siftup:
  assumes "siftup heap pos = Inr h"
  shows "length h = length heap"
proof -
  from assms obtain h1 q where
    loop: "siftup_loop heap (length heap) pos = Inr (h1, q)"
    and down: "siftdown (h1[q := heap ! pos]) pos q = Inr h"
    by (auto simp: siftup_def Let_def split: if_splits sum.splits)
  from length_siftdown [OF down] length_siftup_loop [OF loop] show ?thesis
    by simp
qed

lemma length_heappush:
  "heappush heap item = Inr h \<Longrightarrow> length h = Suc (length heap)"
  unfolding heappush_def by (drule length_siftdown) simp

lemma length_heappop:
  assumes pop: "heappop heap = Inr (item, h)"
  shows "Suc (length h) = length heap"
proof -
  from pop have ne: "heap \<noteq> []"
    by (auto simp: heappop_def)
  show ?thesis
  proof (cases "butlast heap = []")
    case True
    with pop ne have "h = []"
      by (simp add: heappop_def Let_def)
    moreover from True ne have "length heap = 1"
      by (cases heap rule: rev_cases) simp_all
    ultimately show ?thesis by simp
  next
    case False
    with pop ne obtain h2 where up: "siftup ((butlast heap)[0 := last heap]) 0 = Inr h2"
      and h: "h = h2"
      by (auto simp: heappop_def Let_def split: sum.splits)
    from length_siftup [OF up] h ne show ?thesis
      by simp
  qed
qed

section \<open>Order book (market/orderbook.py)\<close>

text \<open>
  Both sides are heap lists of tuples; the bid side stores the negated price. The field
  \<open>_counter\<close> is \<open>counter\<close>. A method that pushes or pops may raise, so it returns
  \<open>error + \<dots>\<close>; the queries do not raise.
\<close>

record OrderBook =
  bids :: "heap_item list"
  asks :: "heap_item list"
  counter :: int

definition OrderBook_init :: OrderBook where
  "OrderBook_init = \<lparr>bids = [], asks = [], counter = 0\<rparr>"

definition clear :: "OrderBook \<Rightarrow> OrderBook" where
  "clear b = b\<lparr>bids := [], asks := [], counter := 0\<rparr>"

definition next_ts :: "OrderBook \<Rightarrow> int \<times> OrderBook" where
  "next_ts b = (counter b + 1, b\<lparr>counter := counter b + 1\<rparr>)"

definition add_limit :: "OrderBook \<Rightarrow> Order \<Rightarrow> error + OrderBook" where
  "add_limit b ord =
     (if quantity ord \<le> 0 then Inr b
      else if price ord \<le> 0 then Inr b
      else
        (case next_ts b of (ts, b1) \<Rightarrow>
           (let entry = \<lparr>entry_price = price ord, timestamp = ts, order = ord,
                          remaining = quantity ord\<rparr>
            in if direction ord = 1 then
                 (case heappush (bids b1) (- entry_price entry, timestamp entry, entry) of
                    Inl e \<Rightarrow> Inl e
                  | Inr h \<Rightarrow> Inr (b1\<lparr>bids := h\<rparr>))
               else
                 (case heappush (asks b1) (entry_price entry, timestamp entry, entry) of
                    Inl e \<Rightarrow> Inl e
                  | Inr h \<Rightarrow> Inr (b1\<lparr>asks := h\<rparr>)))))"

definition reinsert :: "OrderBook \<Rightarrow> BookEntry \<Rightarrow> error + OrderBook" where
  "reinsert b entry =
     (if remaining entry \<le> 0 then Inr b
      else if direction (order entry) = 1 then
        (case heappush (bids b) (- entry_price entry, timestamp entry, entry) of
           Inl e \<Rightarrow> Inl e
         | Inr h \<Rightarrow> Inr (b\<lparr>bids := h\<rparr>))
      else
        (case heappush (asks b) (entry_price entry, timestamp entry, entry) of
           Inl e \<Rightarrow> Inl e
         | Inr h \<Rightarrow> Inr (b\<lparr>asks := h\<rparr>)))"

definition best_bid :: "OrderBook \<Rightarrow> real option" where
  "best_bid b = (if bids b \<noteq> [] then Some (- fst (bids b ! 0)) else None)"

definition best_ask :: "OrderBook \<Rightarrow> real option" where
  "best_ask b = (if asks b \<noteq> [] then Some (fst (asks b ! 0)) else None)"

definition peek_best_bid :: "OrderBook \<Rightarrow> BookEntry option" where
  "peek_best_bid b = (if bids b \<noteq> [] then Some (snd (snd (bids b ! 0))) else None)"

definition peek_best_ask :: "OrderBook \<Rightarrow> BookEntry option" where
  "peek_best_ask b = (if asks b \<noteq> [] then Some (snd (snd (asks b ! 0))) else None)"

definition pop_best_bid :: "OrderBook \<Rightarrow> error + BookEntry \<times> OrderBook" where
  "pop_best_bid b =
     (case heappop (bids b) of
        Inl e \<Rightarrow> Inl e
      | Inr ((_, _, e), h) \<Rightarrow> Inr (e, b\<lparr>bids := h\<rparr>))"

definition pop_best_ask :: "OrderBook \<Rightarrow> error + BookEntry \<times> OrderBook" where
  "pop_best_ask b =
     (case heappop (asks b) of
        Inl e \<Rightarrow> Inl e
      | Inr ((_, _, e), h) \<Rightarrow> Inr (e, b\<lparr>asks := h\<rparr>))"

text \<open>A sequence of calls on one book, stopping at the first exception.\<close>

datatype book_op = Add_limit Order | Reinsert BookEntry | Pop_best_bid | Pop_best_ask

fun run_op :: "OrderBook \<Rightarrow> book_op \<Rightarrow> error + OrderBook" where
  "run_op b (Add_limit ord) = add_limit b ord"
| "run_op b (Reinsert entry) = reinsert b entry"
| "run_op b Pop_best_bid = (case pop_best_bid b of Inl e \<Rightarrow> Inl e | Inr (_, b') \<Rightarrow> Inr b')"
| "run_op b Pop_best_ask = (case pop_best_ask b of Inl e \<Rightarrow> Inl e | Inr (_, b') \<Rightarrow> Inr b')"

fun run_ops :: "OrderBook \<Rightarrow> book_op list \<Rightarrow> error + OrderBook" where
  "run_ops b [] = Inr b"
| "run_ops b (x # xs) = (case run_op b x of Inl e \<Rightarrow> Inl e | Inr b' \<Rightarrow> run_ops b' xs)"

section \<open>Regulation rules (regulation/rules.py)\<close>

record PriceLimitRule =
  pl_enabled :: bool
  threshold :: real

record TransactionTaxRule =
  tt_enabled :: bool
  rate :: real

definition is_valid_price :: "PriceLimitRule \<Rightarrow> real \<Rightarrow> real option \<Rightarrow> bool" where
  "is_valid_price rule p ref_price =
     (if \<not> pl_enabled rule \<or> ref_price = None then True
      else (case ref_price of
              None \<Rightarrow> True
            | Some r \<Rightarrow>
                (let lower = r * (1 - threshold rule); upper = r * (1 + threshold rule)
                 in lower \<le> p \<and> p \<le> upper)))"

definition calculate_tax :: "TransactionTaxRule \<Rightarrow> real \<Rightarrow> int \<Rightarrow> real" where
  "calculate_tax rule p q = (if \<not> tt_enabled rule then 0 else p * real_of_int q * rate rule)"

section \<open>Matching engine (market/cda.py)\<close>

record Trade =
  trade_price :: real
  trade_quantity :: int
  buyer_id :: int
  seller_id :: int
  tax_amount :: real
  trade_timestamp :: int

record CDAEngine =
  book :: OrderBook
  pl_rule :: PriceLimitRule
  tt_rule :: TransactionTaxRule
  last_close_price :: "real option"
  trade_counter :: int
  last_transaction_price :: "real option"
  trades_this_period :: "Trade list"

definition CDAEngine_init ::
    "real option \<Rightarrow> PriceLimitRule \<Rightarrow> TransactionTaxRule \<Rightarrow> CDAEngine" where
  "CDAEngine_init initial_price pl tt =
     \<lparr>book = OrderBook_init, pl_rule = pl, tt_rule = tt, last_close_price = initial_price,
      trade_counter = 0, last_transaction_price = None, trades_this_period = []\<rparr>"

definition set_reference_price_and_reset_book :: "CDAEngine \<Rightarrow> real \<Rightarrow> CDAEngine" where
  "set_reference_price_and_reset_book eng last_close =
     eng\<lparr>last_close_price := Some last_close, book := clear (book eng),
         trades_this_period := [], last_transaction_price := None\<rparr>"

text \<open>The side of the book an incoming order trades against.\<close>

definition opposite_side :: "Order \<Rightarrow> OrderBook \<Rightarrow> heap_item list" where
  "opposite_side ord b = (if direction ord = 1 then asks b else bids b)"

text \<open>
  The body of one round of the matching loop from "Execute Trade" on: build the trade,
  pop the best opposite entry, reduce it, and put it back when something is left. The
  popped entry is the object that was peeked.
\<close>

definition execute_trade ::
    "Order \<Rightarrow> CDAEngine \<Rightarrow> int \<Rightarrow> BookEntry \<Rightarrow> real \<Rightarrow> error + CDAEngine \<times> int \<times> Trade" where
  "execute_trade ord eng rem best_entry match_price =
     (let qty = min rem (remaining best_entry);
          tax = calculate_tax (tt_rule eng) match_price qty;
          tc = trade_counter eng + 1;
          buyer = (if direction ord = 1 then agent_id ord else agent_id (order best_entry));
          seller = (if direction ord = 1 then agent_id (order best_entry) else agent_id ord);
          trade = \<lparr>trade_price = match_price, trade_quantity = qty, buyer_id = buyer,
                   seller_id = seller, tax_amount = tax, trade_timestamp = tc\<rparr>;
          eng1 = eng\<lparr>trade_counter := tc, last_transaction_price := Some match_price,
                     trades_this_period := trades_this_period eng @ [trade]\<rparr>
      in case (if direction ord = 1 then pop_best_ask (book eng1)
               else pop_best_bid (book eng1)) of
           Inl e \<Rightarrow> Inl e
         | Inr (popped, bk) \<Rightarrow>
             (let popped1 = popped\<lparr>remaining := remaining popped - qty\<rparr> in
              case (if remaining popped1 > 0 then reinsert bk popped1 else Inr bk) of
                Inl e \<Rightarrow> Inl e
              | Inr bk1 \<Rightarrow> Inr (eng1\<lparr>book := bk1\<rparr>, rem - qty, trade)))"


text \<open>
  The head of one round of the loop: peek at the best opposite entry and its price, and
  decide whether the round executes. \<open>None\<close> stands for each of the three \<open>break\<close>s (no
  liquidity, the limit price does not cross, the execution price is outside the band).
\<close>

definition next_match :: "Order \<Rightarrow> CDAEngine \<Rightarrow> (BookEntry \<times> real) option" where
  "next_match ord eng =
     (let best_entry = (if direction ord = 1 then peek_best_ask (book eng)
                        else peek_best_bid (book eng));
          match_price = (if direction ord = 1 then best_ask (book eng)
                         else best_bid (book eng))
      in case best_entry of
           None \<Rightarrow> None
         | Some be \<Rightarrow>
             (case match_price of
                None \<Rightarrow> None
              | Some mp \<Rightarrow>
                  if order_type ord = ''limit'' \<and> direction ord = 1 \<and> price ord < mp then None
                  else if order_type ord = ''limit'' \<and> direction ord = - 1 \<and> price ord > mp
                    then None
                  else if \<not> is_valid_price (pl_rule eng) mp (last_close_price eng) then None
                  else Some (be, mp)))"

text \<open>
  Facts for the termination of the matching loop: the entry popped is the entry peeked,
  and a round that leaves the incoming order unfilled removes an entry for good.
\<close>

lemma heappop_returns_root:
  assumes pop: "heappop heap = Inr (item, h)"
  shows "item = heap ! 0"
proof -
  from pop have ne: "heap \<noteq> []"
    by (auto simp: heappop_def)
  show ?thesis
  proof (cases "butlast heap = []")
    case True
    with pop ne have "item = last heap"
      by (simp add: heappop_def Let_def)
    moreover from True ne have "last heap = heap ! 0"
      by (cases heap rule: rev_cases) simp_all
    ultimately show ?thesis by simp
  next
    case False
    with pop ne have "item = butlast heap ! 0"
      by (auto simp: heappop_def Let_def split: sum.splits)
    moreover from False have "butlast heap ! 0 = heap ! 0"
      by (cases heap rule: rev_cases) (simp_all add: nth_append)
    ultimately show ?thesis by simp
  qed
qed

lemma next_match_peek:
  "next_match ord eng = Some (be, mp) \<Longrightarrow>
     opposite_side ord (book eng) \<noteq> [] \<and> be = snd (snd (opposite_side ord (book eng) ! 0))"
  by (auto simp: next_match_def opposite_side_def peek_best_ask_def peek_best_bid_def Let_def
      split: if_splits option.splits)

lemma execute_trade_measure:
  assumes "execute_trade ord eng rem be mp = Inr (eng1, rem1, trade)"
    and "be = snd (snd (opposite_side ord (book eng) ! 0))"
    and "rem1 > 0"
  shows "length (opposite_side ord (book eng1)) < length (opposite_side ord (book eng))"
proof (cases "direction ord = 1")
  case True
  let ?b = "book eng"
  from assms(1) True obtain it h where pop: "heappop (asks ?b) = Inr (it, h)"
    by (auto simp: execute_trade_def Let_def pop_best_ask_def split: sum.splits prod.splits)
  from heappop_returns_root [OF pop] assms(2) True
  have be: "snd (snd it) = be"
    by (simp add: opposite_side_def)
  from assms(1,3) True pop be have "asks (book eng1) = h"
    by (auto simp: execute_trade_def Let_def pop_best_ask_def
        split: sum.splits prod.splits if_splits)
  with length_heappop [OF pop] True show ?thesis
    by (simp add: opposite_side_def)
next
  case False
  let ?b = "book eng"
  from assms(1) False obtain it h where pop: "heappop (bids ?b) = Inr (it, h)"
    by (auto simp: execute_trade_def Let_def pop_best_bid_def split: sum.splits prod.splits)
  from heappop_returns_root [OF pop] assms(2) False
  have be: "snd (snd it) = be"
    by (simp add: opposite_side_def)
  from assms(1,3) False pop be have "bids (book eng1) = h"
    by (auto simp: execute_trade_def Let_def pop_best_bid_def
        split: sum.splits prod.splits if_splits)
  with length_heappop [OF pop] False show ?thesis
    by (simp add: opposite_side_def)
qed

text \<open>
  The matching loop. It returns the engine, the unfilled quantity and the trades made,
  or the exception that ended it.
\<close>

function matching_loop ::
    "Order \<Rightarrow> CDAEngine \<Rightarrow> int \<Rightarrow> Trade list \<Rightarrow> error + CDAEngine \<times> int \<times> Trade list" where
  "matching_loop ord eng rem trades =
     (if rem > 0 then
        (case next_match ord eng of
           None \<Rightarrow> Inr (eng, rem, trades)
         | Some (best_entry, match_price) \<Rightarrow>
             (case execute_trade ord eng rem best_entry match_price of
                Inl e \<Rightarrow> Inl e
              | Inr (eng1, rem1, trade) \<Rightarrow> matching_loop ord eng1 rem1 (trades @ [trade])))
      else Inr (eng, rem, trades))"
  by pat_completeness auto
termination
proof (relation "measure (\<lambda>(ord, eng, rem, trades).
         if rem > 0 then Suc (length (opposite_side ord (book eng))) else 0)")
  show "wf (measure (\<lambda>(ord, eng, rem, trades).
         if rem > 0 then Suc (length (opposite_side ord (book eng))) else 0))"
    by simp
next
  fix ord eng rem trades x2 x y x1 x2a xa ya xb yb
  assume "0 < (rem :: int)" and nm: "next_match ord eng = Some x2"
    and "(x, y) = x2"
    and ex: "execute_trade ord eng rem x y = Inr x2a"
    and "(xa, ya) = x2a" and "(xb, yb) = ya"
  then have ex': "execute_trade ord eng rem x y = Inr (xa, xb, yb)" and nm': "next_match ord eng = Some (x, y)"
    by auto
  from next_match_peek [OF nm'] execute_trade_measure [OF ex']
  have "xb > 0 \<Longrightarrow> length (opposite_side ord (book xa)) < length (opposite_side ord (book eng))"
    by blast
  with \<open>0 < rem\<close>
  show "((ord, xa, xb, trades @ [yb]), ord, eng, rem, trades)
     \<in> measure (\<lambda>(ord, eng, rem, trades).
         if rem > 0 then Suc (length (opposite_side ord (book eng))) else 0)"
    by auto
qed

declare matching_loop.simps [simp del]

text \<open>
  \<open>process_order\<close> returns the trades and the engine after the call, or the exception.
  \<open>order._replace(quantity=remaining)\<close> is a record update.
\<close>

definition process_order :: "CDAEngine \<Rightarrow> Order \<Rightarrow> error + Trade list \<times> CDAEngine" where
  "process_order eng ord =
     (if quantity ord \<le> 0 then Inr ([], eng)
      else if order_type ord \<noteq> ''market'' \<and> order_type ord \<noteq> ''limit'' then Inr ([], eng)
      else if direction ord \<noteq> 1 \<and> direction ord \<noteq> - 1 then Inr ([], eng)
      else if order_type ord = ''limit'' \<and> price ord \<le> 0 then Inr ([], eng)
      else if order_type ord = ''limit''
              \<and> \<not> is_valid_price (pl_rule eng) (price ord) (last_close_price eng)
        then Inr ([], eng)
      else
        (case matching_loop ord eng (quantity ord) [] of
           Inl e \<Rightarrow> Inl e
         | Inr (eng1, rem, trades) \<Rightarrow>
             if is_valid_price (pl_rule eng1) (price ord) (last_close_price eng1) then
               (case add_limit (book eng1) (ord\<lparr>quantity := rem\<rparr>) of
                  Inl e \<Rightarrow> Inl e
                | Inr bk \<Rightarrow> Inr (trades, eng1\<lparr>book := bk\<rparr>))
             else Inr (trades, eng1)))"

text \<open>The three orders of the partial-fill scenario, and an engine to run them on.\<close>

definition scenario_buy :: Order where
  "scenario_buy =
     \<lparr>agent_id = 1, direction = 1, order_type = ''limit'', price = 10, quantity = 5\<rparr>"

definition scenario_sell_3 :: Order where
  "scenario_sell_3 =
     \<lparr>agent_id = 2, direction = - 1, order_type = ''limit'', price = 9, quantity = 3\<rparr>"

definition scenario_sell_4 :: Order where
  "scenario_sell_4 =
     \<lparr>agent_id = 3, direction = - 1, order_type = ''limit'', price = 10, quantity = 4\<rparr>"

definition example_engine :: CDAEngine where
  "example_engine =
     CDAEngine_init (Some 10) \<lparr>pl_enabled = True, threshold = 1 / 10\<rparr>
       \<lparr>tt_enabled = True, rate = 1 / 1000\<rparr>"

text \<open>
  A sequence of book operations for the examples: three asks (11, 10, 10), three bids
  (8, 9, 9), then the best ask is popped and put back with one unit less.
\<close>

definition example_ops :: "book_op list" where
  "example_ops =
     [Add_limit \<lparr>agent_id = 1, direction = - 1, order_type = ''limit'', price = 11, quantity = 1\<rparr>,
      Add_limit \<lparr>agent_id = 2, direction = - 1, order_type = ''limit'', price = 10, quantity = 2\<rparr>,
      Add_limit \<lparr>agent_id = 3, direction = - 1, order_type = ''limit'', price = 10, quantity = 3\<rparr>,
      Add_limit \<lparr>agent_id = 4, direction = 1, order_type = ''limit'', price = 8, quantity = 1\<rparr>,
      Add_limit \<lparr>agent_id = 5, direction = 1, order_type = ''limit'', price = 9, quantity = 2\<rparr>,
      Add_limit \<lparr>agent_id = 6, direction = 1, order_type = ''limit'', price = 9, quantity = 4\<rparr>,
      Pop_best_ask,
      Reinsert \<lparr>entry_price = 10, timestamp = 2,
        order = \<lparr>agent_id = 2, direction = - 1, order_type = ''limit'', price = 10, quantity = 2\<rparr>,
        remaining = 1\<rparr>]"

definition example_book :: OrderBook where
  "example_book =
     \<lparr>bids =
        [(- 9, 5, \<lparr>entry_price = 9, timestamp = 5,
            order = \<lparr>agent_id = 5, direction = 1, order_type = ''limit'', price = 9, quantity = 2\<rparr>,
            remaining = 2\<rparr>),
         (- 8, 4, \<lparr>entry_price = 8, timestamp = 4,
            order = \<lparr>agent_id = 4, direction = 1, order_type = ''limit'', price = 8, quantity = 1\<rparr>,
            remaining = 1\<rparr>),
         (- 9, 6, \<lparr>entry_price = 9, timestamp = 6,
            order = \<lparr>agent_id = 6, direction = 1, order_type = ''limit'', price = 9, quantity = 4\<rparr>,
            remaining = 4\<rparr>)],
      asks =
        [(10, 2, \<lparr>entry_price = 10, timestamp = 2,
            order = \<lparr>agent_id = 2, direction = - 1, order_type = ''limit'', price = 10, quantity = 2\<rparr>,
            remaining = 1\<rparr>),
         (11, 1, \<lparr>entry_price = 11, timestamp = 1,
            order = \<lparr>agent_id = 1, direction = - 1, order_type = ''limit'', price = 11, quantity = 1\<rparr>,
            remaining = 1\<rparr>),
         (10, 3, \<lparr>entry_price = 10, timestamp = 3,
            order = \<lparr>agent_id = 3, direction = - 1, order_type = ''limit'', price = 10, quantity = 3\<rparr>,
            remaining = 3\<rparr>)],
      counter = 6\<rparr>"

text \<open>The example engine after the buy of the scenario has rested as its only bid.\<close>

definition example_bid :: BookEntry where
  "example_bid = \<lparr>entry_price = 10, timestamp = 1, order = scenario_buy, remaining = 5\<rparr>"

definition example_engine_after_buy :: CDAEngine where
  "example_engine_after_buy =
     example_engine\<lparr>book := \<lparr>bids = [(- 10, 1, example_bid)], asks = [], counter = 1\<rparr>\<rparr>"

section \<open>Heap order and book invariants (used in the proofs below)\<close>

text \<open>
  The part of a heap tuple that decides the comparison when no \<open>TypeError\<close> is raised:
  priority price, then timestamp, ordered lexicographically.
\<close>

definition key :: "heap_item \<Rightarrow> real \<times> int" where
  "key it = (fst it, fst (snd it))"

definition parent :: "nat \<Rightarrow> nat" where
  "parent i = (i - 1) div 2"

text \<open>The heap invariant of heapq: every item is at least its parent.\<close>

definition is_heap :: "heap_item list \<Rightarrow> bool" where
  "is_heap h = (\<forall>i \<in> {1..<length h}. key (h ! parent i) \<le> key (h ! i))"

text \<open>
  \<open>heap_but h pos\<close>: a heap except that the item at \<open>pos\<close> may be smaller than its parent
  (the state of \<open>_siftdown\<close>, with \<open>newitem\<close> written at \<open>pos\<close>).
  \<open>heap_hole h pos\<close>: a heap when position \<open>pos\<close> is ignored (the state of the loop of
  \<open>_siftup\<close>).
\<close>

definition heap_but :: "heap_item list \<Rightarrow> nat \<Rightarrow> bool" where
  "heap_but h pos =
     ((\<forall>i \<in> {1..<length h}. i \<noteq> pos \<longrightarrow> key (h ! parent i) \<le> key (h ! i))
      \<and> (\<forall>i \<in> {1..<length h}. parent i = pos \<and> 0 < pos \<longrightarrow>
             key (h ! parent pos) \<le> key (h ! i)))"

definition heap_hole :: "heap_item list \<Rightarrow> nat \<Rightarrow> bool" where
  "heap_hole h pos =
     (\<forall>i \<in> {1..<length h}. i \<noteq> pos \<longrightarrow>
        (parent i \<noteq> pos \<longrightarrow> key (h ! parent i) \<le> key (h ! i))
        \<and> (parent i = pos \<and> 0 < pos \<longrightarrow> key (h ! parent pos) \<le> key (h ! i)))"

text \<open>The entries resting on one side of the book, and the tuple the book stores for an entry.\<close>

definition resting :: "heap_item list \<Rightarrow> BookEntry set" where
  "resting h = (\<lambda>it. snd (snd it)) ` set h"

definition bid_item :: "BookEntry \<Rightarrow> heap_item" where
  "bid_item e = (- entry_price e, timestamp e, e)"

definition ask_item :: "BookEntry \<Rightarrow> heap_item" where
  "ask_item e = (entry_price e, timestamp e, e)"

text \<open>
  \<open>book_inv\<close>: both sides are heaps and every tuple is the one the book builds for its
  entry. It holds after any sequence of book operations that does not raise.
\<close>

definition book_inv :: "OrderBook \<Rightarrow> bool" where
  "book_inv b =
     (is_heap (bids b) \<and> is_heap (asks b)
      \<and> (\<forall>it \<in> set (bids b). it = bid_item (snd (snd it)))
      \<and> (\<forall>it \<in> set (asks b). it = ask_item (snd (snd it))))"

text \<open>
  \<open>sides_inv\<close>: buy entries rest on the bid side and all others on the ask side, as
  \<open>add_limit\<close> and \<open>reinsert\<close> place them.
\<close>

definition sides_inv :: "OrderBook \<Rightarrow> bool" where
  "sides_inv b =
     ((\<forall>e \<in> resting (bids b). direction (order e) = 1)
      \<and> (\<forall>e \<in> resting (asks b). direction (order e) \<noteq> 1))"

text \<open>The side an order rests on, and the tuple stored there for an entry.\<close>

definition own_side :: "Order \<Rightarrow> OrderBook \<Rightarrow> heap_item list" where
  "own_side ord b = (if direction ord = 1 then bids b else asks b)"

definition opposite_item :: "Order \<Rightarrow> BookEntry \<Rightarrow> heap_item" where
  "opposite_item ord e = (if direction ord = 1 then ask_item e else bid_item e)"

definition peek_opposite :: "Order \<Rightarrow> OrderBook \<Rightarrow> BookEntry option" where
  "peek_opposite ord b = (if direction ord = 1 then peek_best_ask b else peek_best_bid b)"

text \<open>
  What the simulation does with an engine: it resets the book at the start of a session
  and processes orders. A run stops at the first exception.
\<close>

datatype engine_op = Process Order | Reset real

fun run_engine :: "CDAEngine \<Rightarrow> engine_op list \<Rightarrow> error + CDAEngine" where
  "run_engine eng [] = Inr eng"
| "run_engine eng (Process ord # ops) =
     (case process_order eng ord of
        Inl e \<Rightarrow> Inl e
      | Inr (trades, eng') \<Rightarrow> run_engine eng' ops)"
| "run_engine eng (Reset last_close # ops) =
     run_engine (set_reference_price_and_reset_book eng last_close) ops"

text \<open>
  \<open>ts_inv\<close>: on each side the arrival sequence numbers are pairwise different, and none
  exceeds the counter. The matching engine keeps it: new entries take the next counter
  value, and only an entry just popped is put back.
\<close>

definition ts_inv :: "OrderBook \<Rightarrow> bool" where
  "ts_inv b =
     (distinct (map (\<lambda>it. fst (snd it)) (bids b))
      \<and> distinct (map (\<lambda>it. fst (snd it)) (asks b))
      \<and> (\<forall>it \<in> set (bids b) \<union> set (asks b). fst (snd it) \<le> counter b))"

text \<open>
  Statements about the remainder of an order. \<open>accepted\<close>: the order passes the
  validation and the submission check at the head of \<open>process_order\<close>, so the matching
  loop runs. \<open>rests_on b1 b2 ord rem\<close>: book \<open>b2\<close> is book \<open>b1\<close> with one more entry, on
  the order's own side, for the quantity \<open>rem\<close> of the order, under the next sequence
  number.
\<close>

definition accepted :: "CDAEngine \<Rightarrow> Order \<Rightarrow> bool" where
  "accepted eng ord =
     (quantity ord > 0
      \<and> (order_type ord = ''market'' \<or> order_type ord = ''limit'')
      \<and> (direction ord = 1 \<or> direction ord = - 1)
      \<and> (order_type ord = ''limit'' \<longrightarrow>
            price ord > 0 \<and> is_valid_price (pl_rule eng) (price ord) (last_close_price eng)))"

definition new_entry :: "OrderBook \<Rightarrow> Order \<Rightarrow> int \<Rightarrow> BookEntry" where
  "new_entry b ord rem =
     \<lparr>entry_price = price ord, timestamp = counter b + 1, order = ord\<lparr>quantity := rem\<rparr>,
      remaining = rem\<rparr>"

definition own_item :: "Order \<Rightarrow> BookEntry \<Rightarrow> heap_item" where
  "own_item ord e = (if direction ord = 1 then bid_item e else ask_item e)"

definition rests_on :: "OrderBook \<Rightarrow> OrderBook \<Rightarrow> Order \<Rightarrow> int \<Rightarrow> bool" where
  "rests_on b1 b2 ord rem =
     (counter b2 = counter b1 + 1
      \<and> opposite_side ord b2 = opposite_side ord b1
      \<and> mset (own_side ord b2)
          = add_mset (own_item ord (new_entry b1 ord rem)) (mset (own_side ord b1)))"

text \<open>An engine with the price-limit rule disabled, and a market buy with nominal price zero.\<close>

definition example_engine_unlimited :: CDAEngine where
  "example_engine_unlimited =
     CDAEngine_init (Some 10) \<lparr>pl_enabled = False, threshold = 1 / 10\<rparr>
       \<lparr>tt_enabled = False, rate = 1 / 1000\<rparr>"

definition example_market_buy :: Order where
  "example_market_buy =
     \<lparr>agent_id = 7, direction = 1, order_type = ''market'', price = 0, quantity = 5\<rparr>"


section \<open>Properties of the time driver\<close>

lemma step_initial_stuck:
  "0 \<le> rpp \<Longrightarrow> step (Timeline_init tp rpp) = (Finished, Timeline_init tp rpp)"
  by (simp add: step_def Timeline_init_def)

text \<open>
  C1. Scheduler trace for \<open>total_periods = 2\<close>, \<open>rounds_per_period = 3\<close>. The claim
  expects settlement, three trading rounds, period end, twice, then finished. The code
  starts with \<open>current_round = -1\<close>, which no branch of \<open>step\<close> handles, so the first
  call falls through to the final \<open>return "finished"\<close> without changing the state, and
  so does every later call: eleven calls return \<open>finished\<close> eleven times.
\<close>

theorem timeline_trace_2_3_all_finished:
  "step_trace 11 (Timeline_init 2 3) = replicate 11 Finished
   \<and> fst (step (Timeline_init 2 3)) = Finished
   \<and> fst (step (Timeline_init 2 3)) \<noteq> Settlement
   \<and> snd (step (Timeline_init 2 3)) = Timeline_init 2 3"
  by (simp add: step_initial_stuck eval_nat_numeral)

section \<open>Properties of the account ledger\<close>

lemma py_sum_eq_sum_list: "py_sum xs = sum_list xs"
proof -
  have "foldl (+) a xs = a + sum_list xs" for a :: "'a::monoid_add"
    by (induction xs arbitrary: a) (simp_all add: add.assoc)
  from this [of 0] show ?thesis by (simp add: py_sum_def)
qed

text \<open>
  C4. The claim says that constructing an account with an unknown budget-policy name
  raises. The constructor stores the name unchecked and always succeeds; the name is
  only examined by \<open>check_budget_constraint\<close>, whose final \<open>else\<close> branch raises
  \<open>ValueError\<close> on each call. The counterexample builds an account with the policy
  name \<open>bogus\<close>.
\<close>

theorem unknown_policy_init_counterexample:
  "''bogus'' \<noteq> ''strict_available'' \<and> ''bogus'' \<noteq> ''include_pending''
   \<and> \<not> isl (AccountState_init 100 10 ''bogus'' True True)"
  by (simp add: AccountState_init_def)

text \<open>
  C4 as amended: for every policy name construction succeeds and stores the name
  unchecked. The name never changes afterwards (neither \<open>apply_trade\<close> nor
  \<open>process_settlements\<close> assigns it). On any account whose policy name is neither of the
  two recognised ones, whatever its balances and pending transfers, every call of
  \<open>check_budget_constraint\<close> raises \<open>ValueError\<close>, and so does \<open>apply_trade\<close> with budget
  enforcement, leaving the account as it was.
\<close>

theorem unknown_policy_deferred:
  "AccountState_init c k policy eqp xp =
     Inr \<lparr>cash = c, stock = k, pending_transfers = [], budget_policy = policy,
          equity_includes_pending = eqp, exposure_includes_pending = xp, last_wealth = None\<rparr>
   \<and> budget_policy (snd (apply_trade s cd sd t lag enforce)) = budget_policy s
   \<and> budget_policy (process_settlements s t) = budget_policy s
   \<and> (budget_policy s \<noteq> ''strict_available'' \<and> budget_policy s \<noteq> ''include_pending'' \<longrightarrow>
          check_budget_constraint s cd sd = Inl (ValueError ''Unknown budget_policy'')
        \<and> apply_trade s cd sd t lag True = (Some (ValueError ''Unknown budget_policy''), s))"
proof -
  have "budget_policy (snd (apply_trade s cd sd t lag enforce)) = budget_policy s"
    by (simp add: apply_trade_def Let_def split: sum.splits)
  moreover have "budget_policy (process_settlements s t) = budget_policy s"
    by (simp add: process_settlements_def split: prod.splits)
  ultimately show ?thesis
    by (simp add: AccountState_init_def check_budget_constraint_def apply_trade_def)
qed

text \<open>
  The instance: an account built with the policy name \<open>bogus\<close>, then changed by a trade
  without budget enforcement under lag 1, still raises on the budget check.
\<close>

theorem unknown_policy_deferred_witness:
  "''bogus'' \<noteq> ''strict_available'' \<and> ''bogus'' \<noteq> ''include_pending''
   \<and> AccountState_init 100 10 ''bogus'' True True = Inr (example_account\<lparr>budget_policy := ''bogus''\<rparr>)
   \<and> apply_trade (example_account\<lparr>budget_policy := ''bogus''\<rparr>) (- 50) 5 3 1 False =
       (None, example_account\<lparr>budget_policy := ''bogus'', pending_transfers :=
                [\<lparr>release_time = 4, cash_delta = - 50, stock_delta = 5\<rparr>]\<rparr>)
   \<and> check_budget_constraint
        (example_account\<lparr>budget_policy := ''bogus'', pending_transfers :=
                [\<lparr>release_time = 4, cash_delta = - 50, stock_delta = 5\<rparr>]\<rparr>) (- 5) 1
       = Inl (ValueError ''Unknown budget_policy'')
   \<and> apply_trade
        (example_account\<lparr>budget_policy := ''bogus'', pending_transfers :=
                [\<lparr>release_time = 4, cash_delta = - 50, stock_delta = 5\<rparr>]\<rparr>) (- 5) 1 3 0 True
       = (Some (ValueError ''Unknown budget_policy''),
          example_account\<lparr>budget_policy := ''bogus'', pending_transfers :=
                [\<lparr>release_time = 4, cash_delta = - 50, stock_delta = 5\<rparr>]\<rparr>)"
proof -
  let ?s = "example_account\<lparr>budget_policy := ''bogus'', pending_transfers :=
                [\<lparr>release_time = 4, cash_delta = - 50, stock_delta = 5\<rparr>]\<rparr>"
  have p: "budget_policy ?s \<noteq> ''strict_available'' \<and> budget_policy ?s \<noteq> ''include_pending''"
    by simp
  have a: "apply_trade (example_account\<lparr>budget_policy := ''bogus''\<rparr>) (- 50) 5 3 1 False
      = (None, ?s)"
    by (simp add: apply_trade_def example_account_def)
  from unknown_policy_deferred [of 100 10 "''bogus''" True True ?s "- 5" 1 3 0 True] p
  have "AccountState_init 100 10 ''bogus'' True True =
      Inr (example_account\<lparr>budget_policy := ''bogus''\<rparr>)"
    and "check_budget_constraint ?s (- 5) 1 = Inl (ValueError ''Unknown budget_policy'')"
    and "apply_trade ?s (- 5) 1 3 0 True = (Some (ValueError ''Unknown budget_policy''), ?s)"
    by (simp_all add: example_account_def)
  with a show ?thesis by simp
qed

text \<open>
  C5. \<open>apply_trade\<close> with budget enforcement: when the budget check is false the call
  raises and the account is untouched; when it is true, a zero lag adds the deltas to
  cash and stock at once, and a positive lag leaves cash and stock alone and appends one
  pending transfer released at \<open>current_time + settlement_lag\<close>.
\<close>

theorem apply_trade_contract:
  "(check_budget_constraint s cd sd = Inr False \<longrightarrow>
      apply_trade s cd sd t lag True = (Some (ValueError ''Budget constraint violated!''), s))
   \<and> (check_budget_constraint s cd sd = Inr True \<longrightarrow>
        (lag = 0 \<longrightarrow>
           apply_trade s cd sd t lag True =
             (None, s\<lparr>cash := cash s + cd, stock := stock s + sd\<rparr>))
      \<and> (lag > 0 \<longrightarrow>
           apply_trade s cd sd t lag True =
             (None, s\<lparr>pending_transfers := pending_transfers s @
                      [\<lparr>release_time = t + lag, cash_delta = cd, stock_delta = sd\<rparr>]\<rparr>)))"
  by (simp add: apply_trade_def)

theorem apply_trade_contract_witness:
  "check_budget_constraint example_account (- 200) 5 = Inr False
   \<and> apply_trade example_account (- 200) 5 3 1 True =
       (Some (ValueError ''Budget constraint violated!''), example_account)
   \<and> check_budget_constraint example_account (- 50) 5 = Inr True
   \<and> apply_trade example_account (- 50) 5 3 0 True =
       (None, example_account\<lparr>cash := 50, stock := 15\<rparr>)
   \<and> apply_trade example_account (- 50) 5 3 1 True =
       (None, example_account\<lparr>pending_transfers :=
                [\<lparr>release_time = 4, cash_delta = - 50, stock_delta = 5\<rparr>]\<rparr>)"
proof -
  have bad: "check_budget_constraint example_account (- 200) 5 = Inr False"
    by (simp add: check_budget_constraint_def example_account_def budget_tolerance_def)
  have good: "check_budget_constraint example_account (- 50) 5 = Inr True"
    by (simp add: check_budget_constraint_def example_account_def budget_tolerance_def)
  from apply_trade_contract [of example_account "- 200" 5 3 1] bad
  have 1: "apply_trade example_account (- 200) 5 3 1 True =
       (Some (ValueError ''Budget constraint violated!''), example_account)"
    by simp
  from apply_trade_contract [of example_account "- 50" 5 3 0] good
  have 2: "apply_trade example_account (- 50) 5 3 0 True =
       (None, example_account\<lparr>cash := 50, stock := 15\<rparr>)"
    by (simp add: example_account_def)
  from apply_trade_contract [of example_account "- 50" 5 3 1] good
  have 3: "apply_trade example_account (- 50) 5 3 1 True =
       (None, example_account\<lparr>pending_transfers :=
                [\<lparr>release_time = 4, cash_delta = - 50, stock_delta = 5\<rparr>]\<rparr>)"
    by (simp add: example_account_def)
  from bad good 1 2 3 show ?thesis by simp
qed

text \<open>
  C6. \<open>check_budget_constraint\<close> is a function of the account and the two deltas only
  (its model takes no state out). Under the strict basis the baseline is the settled
  cash and stock; under the pending-inclusive basis it is the settled balance plus the
  sum of the pending deltas. In both cases the result is true exactly when baseline
  cash plus the cash delta is at least \<open>-1e-9\<close> and baseline stock plus the stock delta
  is at least zero.
\<close>

theorem check_budget_constraint_iff:
  "(budget_policy s = ''strict_available'' \<longrightarrow>
      check_budget_constraint s cd sd =
        Inr (cash s + cd \<ge> - (1 / 10 ^ 9) \<and> stock s + sd \<ge> 0))
   \<and> (budget_policy s = ''include_pending'' \<longrightarrow>
      check_budget_constraint s cd sd =
        Inr (cash s + (\<Sum>p\<leftarrow>pending_transfers s. cash_delta p) + cd \<ge> - (1 / 10 ^ 9)
             \<and> stock s + (\<Sum>p\<leftarrow>pending_transfers s. stock_delta p) + sd \<ge> 0))"
  by (simp add: check_budget_constraint_def py_sum_eq_sum_list budget_tolerance_def)

theorem check_budget_constraint_iff_witness:
  "check_budget_constraint example_account (- 100) (- 10) = Inr True
   \<and> check_budget_constraint example_account (- 101) 0 = Inr False
   \<and> check_budget_constraint example_account 0 (- 11) = Inr False
   \<and> check_budget_constraint
        (example_account\<lparr>budget_policy := ''include_pending'',
           pending_transfers := [\<lparr>release_time = 4, cash_delta = - 50, stock_delta = 5\<rparr>]\<rparr>)
        (- 50) (- 15) = Inr True
   \<and> check_budget_constraint
        (example_account\<lparr>budget_policy := ''include_pending'',
           pending_transfers := [\<lparr>release_time = 4, cash_delta = - 50, stock_delta = 5\<rparr>]\<rparr>)
        (- 51) 0 = Inr False"
  using check_budget_constraint_iff [of example_account "- 100" "- 10"]
    check_budget_constraint_iff [of example_account "- 101" 0]
    check_budget_constraint_iff [of example_account 0 "- 11"]
    check_budget_constraint_iff [of "example_account\<lparr>budget_policy := ''include_pending'',
           pending_transfers := [\<lparr>release_time = 4, cash_delta = - 50, stock_delta = 5\<rparr>]\<rparr>"
        "- 50" "- 15"]
    check_budget_constraint_iff [of "example_account\<lparr>budget_policy := ''include_pending'',
           pending_transfers := [\<lparr>release_time = 4, cash_delta = - 50, stock_delta = 5\<rparr>]\<rparr>"
        "- 51" 0]
  by (simp add: example_account_def)

text \<open>The settlement loop in closed form: due transfers are added, the others kept in order.\<close>

lemma settle_loop_eq:
  "settle_loop t ps (c, k, rem) =
     (c + (\<Sum>p\<leftarrow>filter (\<lambda>p. t \<ge> release_time p) ps. cash_delta p),
      k + (\<Sum>p\<leftarrow>filter (\<lambda>p. t \<ge> release_time p) ps. stock_delta p),
      rem @ filter (\<lambda>p. \<not> t \<ge> release_time p) ps)"
  by (induction ps arbitrary: c k rem) simp_all

lemma process_settlements_eq:
  "process_settlements s t =
     s\<lparr>cash := cash s + (\<Sum>p\<leftarrow>filter (\<lambda>p. t \<ge> release_time p) (pending_transfers s). cash_delta p),
       stock := stock s + (\<Sum>p\<leftarrow>filter (\<lambda>p. t \<ge> release_time p) (pending_transfers s). stock_delta p),
       pending_transfers := filter (\<lambda>p. \<not> t \<ge> release_time p) (pending_transfers s)\<rparr>"
  by (cases "pending_transfers s = []") (simp_all add: process_settlements_def settle_loop_eq)

lemma process_settlements_idem:
  "process_settlements (process_settlements s t) t = process_settlements s t"
proof -
  have "filter (\<lambda>p. t \<ge> release_time p) (filter (\<lambda>p. \<not> t \<ge> release_time p) ps) = []"
    for ps :: "PendingTransfer list"
    by (induction ps) simp_all
  then show ?thesis
    by (simp add: process_settlements_eq [of _ t])
qed

text \<open>
  C7. A transfer created by \<open>apply_trade\<close> with lag 1 at period \<open>t\<close> is settled exactly
  once. The account may already hold other pending transfers, so each step is compared
  with the same step on the account without the new transfer: (a) the trade changes
  nothing but the pending list; (b) settling at \<open>t\<close> keeps the new transfer and adds
  nothing for it; (c) settling at \<open>t + 1\<close> adds its deltas once and drops it; (d) settling
  at \<open>t + 1\<close> again changes nothing.
\<close>

theorem pending_transfer_settled_once:
  assumes "apply_trade s cd sd t 1 enforce = (None, s1)"
  shows "s1 = s\<lparr>pending_transfers := pending_transfers s @
                  [\<lparr>release_time = t + 1, cash_delta = cd, stock_delta = sd\<rparr>]\<rparr>
    \<and> process_settlements s1 t =
        (process_settlements s t)\<lparr>pending_transfers :=
           pending_transfers (process_settlements s t) @
             [\<lparr>release_time = t + 1, cash_delta = cd, stock_delta = sd\<rparr>]\<rparr>
    \<and> process_settlements (process_settlements s1 t) (t + 1) =
        (process_settlements (process_settlements s t) (t + 1))
          \<lparr>cash := cash (process_settlements (process_settlements s t) (t + 1)) + cd,
           stock := stock (process_settlements (process_settlements s t) (t + 1)) + sd\<rparr>
    \<and> \<lparr>release_time = t + 1, cash_delta = cd, stock_delta = sd\<rparr>
        \<notin> set (pending_transfers (process_settlements (process_settlements s1 t) (t + 1)))
    \<and> process_settlements (process_settlements (process_settlements s1 t) (t + 1)) (t + 1) =
        process_settlements (process_settlements s1 t) (t + 1)"
proof -
  let ?tr = "\<lparr>release_time = t + 1, cash_delta = cd, stock_delta = sd\<rparr>"
  from assms have s1: "s1 = s\<lparr>pending_transfers := pending_transfers s @ [?tr]\<rparr>"
    by (auto simp: apply_trade_def Let_def split: if_splits sum.splits)
  have b: "process_settlements s1 t =
        (process_settlements s t)\<lparr>pending_transfers :=
           pending_transfers (process_settlements s t) @ [?tr]\<rparr>"
    unfolding s1 by (simp add: process_settlements_eq [of _ t])
  have c: "process_settlements (process_settlements s1 t) (t + 1) =
        (process_settlements (process_settlements s t) (t + 1))
          \<lparr>cash := cash (process_settlements (process_settlements s t) (t + 1)) + cd,
           stock := stock (process_settlements (process_settlements s t) (t + 1)) + sd\<rparr>"
    unfolding b by (simp add: process_settlements_eq [of _ "t + 1"])
  have d: "?tr \<notin> set (pending_transfers (process_settlements (process_settlements s1 t) (t + 1)))"
    by (simp add: process_settlements_eq [of _ "t + 1"])
  have e: "process_settlements (process_settlements (process_settlements s1 t) (t + 1)) (t + 1) =
        process_settlements (process_settlements s1 t) (t + 1)"
    by (rule process_settlements_idem)
  from s1 b c d e show ?thesis
    by (intro conjI)
qed

text \<open>
  The instance of the specification's test: a fresh account with 100 in cash and 10
  shares buys 5 shares for 50 at period 3 under lag 1.
\<close>

theorem pending_transfer_settled_once_witness:
  "apply_trade example_account (- 50) 5 3 1 True =
     (None, example_account\<lparr>pending_transfers :=
                [\<lparr>release_time = 4, cash_delta = - 50, stock_delta = 5\<rparr>]\<rparr>)
   \<and> process_settlements (example_account\<lparr>pending_transfers :=
                [\<lparr>release_time = 4, cash_delta = - 50, stock_delta = 5\<rparr>]\<rparr>) 3 =
       example_account\<lparr>pending_transfers :=
                [\<lparr>release_time = 4, cash_delta = - 50, stock_delta = 5\<rparr>]\<rparr>
   \<and> process_settlements (example_account\<lparr>pending_transfers :=
                [\<lparr>release_time = 4, cash_delta = - 50, stock_delta = 5\<rparr>]\<rparr>) 4 =
       example_account\<lparr>cash := 50, stock := 15\<rparr>
   \<and> process_settlements (example_account\<lparr>cash := 50, stock := 15\<rparr>) 4 =
       example_account\<lparr>cash := 50, stock := 15\<rparr>"
proof -
  let ?s1 = "example_account\<lparr>pending_transfers :=
                [\<lparr>release_time = 4, cash_delta = - 50, stock_delta = 5\<rparr>]\<rparr>"
  have a: "apply_trade example_account (- 50) 5 3 1 True = (None, ?s1)"
    by (simp add: apply_trade_def check_budget_constraint_def example_account_def
        budget_tolerance_def)
  have e: "process_settlements example_account u = example_account" for u
    by (simp add: process_settlements_def example_account_def)
  have p: "pending_transfers example_account = []"
    by (simp add: example_account_def)
  note once = pending_transfer_settled_once [OF a]
  from once e p have b: "process_settlements ?s1 3 = ?s1"
    by simp
  from once have "process_settlements (process_settlements ?s1 3) (3 + 1) =
        (process_settlements (process_settlements example_account 3) (3 + 1))
          \<lparr>cash := cash (process_settlements (process_settlements example_account 3) (3 + 1)) + (- 50),
           stock := stock (process_settlements (process_settlements example_account 3) (3 + 1)) + 5\<rparr>"
    by blast
  with b e have c: "process_settlements ?s1 4 = example_account\<lparr>cash := 50, stock := 15\<rparr>"
    by (simp add: example_account_def)
  from once have "process_settlements (process_settlements (process_settlements ?s1 3) (3 + 1)) (3 + 1)
       = process_settlements (process_settlements ?s1 3) (3 + 1)"
    by blast
  with b c have d: "process_settlements (example_account\<lparr>cash := 50, stock := 15\<rparr>) 4
       = example_account\<lparr>cash := 50, stock := 15\<rparr>"
    by simp
  from a b c d show ?thesis by simp
qed

section \<open>Properties of the order book and the matching engine\<close>

lemmas book_defs = add_limit_def reinsert_def next_ts_def heappush_def heappop_def siftdown_def
  siftup_def smaller_child_def item_lt_def best_bid_def best_ask_def peek_best_bid_def
  peek_best_ask_def pop_best_bid_def pop_best_ask_def

text \<open>The three steps of the scenario, each on any engine whose book has the shape shown.\<close>

lemma scenario_step_buy:
  assumes "bids (book eng) = []" "asks (book eng) = []"
    and "is_valid_price (pl_rule eng) 10 (last_close_price eng)"
  shows "process_order eng scenario_buy =
     Inr ([], eng\<lparr>book := (book eng)\<lparr>bids := [(- 10, counter (book eng) + 1,
        \<lparr>entry_price = 10, timestamp = counter (book eng) + 1, order = scenario_buy,
          remaining = 5\<rparr>)],
        counter := counter (book eng) + 1\<rparr>\<rparr>)"
  using assms
  by (simp add: process_order_def scenario_buy_def matching_loop.simps [of _ _ 5]
      next_match_def book_defs siftdown_loop.simps [of _ _ _ 0] Let_def)

lemma scenario_step_sell_3:
  assumes "bids (book eng) = [(- 10, ts,
      \<lparr>entry_price = 10, timestamp = ts, order = scenario_buy, remaining = 5\<rparr>)]"
    and "asks (book eng) = []"
    and "is_valid_price (pl_rule eng) 10 (last_close_price eng)"
    and "is_valid_price (pl_rule eng) 9 (last_close_price eng)"
  shows "process_order eng scenario_sell_3 =
     Inr ([\<lparr>trade_price = 10, trade_quantity = 3, buyer_id = 1, seller_id = 2,
            tax_amount = calculate_tax (tt_rule eng) 10 3,
            trade_timestamp = trade_counter eng + 1\<rparr>],
          eng\<lparr>trade_counter := trade_counter eng + 1, last_transaction_price := Some 10,
              trades_this_period := trades_this_period eng @
                [\<lparr>trade_price = 10, trade_quantity = 3, buyer_id = 1, seller_id = 2,
                  tax_amount = calculate_tax (tt_rule eng) 10 3,
                  trade_timestamp = trade_counter eng + 1\<rparr>],
              book := (book eng)\<lparr>bids := [(- 10, ts,
                \<lparr>entry_price = 10, timestamp = ts, order = scenario_buy,
                  remaining = 2\<rparr>)]\<rparr>\<rparr>)"
  using assms
  by (simp add: process_order_def scenario_buy_def scenario_sell_3_def
      matching_loop.simps [of _ _ 3] matching_loop.simps [of _ _ 0] next_match_def
      execute_trade_def book_defs siftdown_loop.simps [of _ _ _ 0] Let_def)

lemma scenario_step_sell_4:
  assumes "bids (book eng) = [(- 10, ts,
      \<lparr>entry_price = 10, timestamp = ts, order = scenario_buy, remaining = 2\<rparr>)]"
    and "asks (book eng) = []"
    and "is_valid_price (pl_rule eng) 10 (last_close_price eng)"
  shows "process_order eng scenario_sell_4 =
     Inr ([\<lparr>trade_price = 10, trade_quantity = 2, buyer_id = 1, seller_id = 3,
            tax_amount = calculate_tax (tt_rule eng) 10 2,
            trade_timestamp = trade_counter eng + 1\<rparr>],
          eng\<lparr>trade_counter := trade_counter eng + 1, last_transaction_price := Some 10,
              trades_this_period := trades_this_period eng @
                [\<lparr>trade_price = 10, trade_quantity = 2, buyer_id = 1, seller_id = 3,
                  tax_amount = calculate_tax (tt_rule eng) 10 2,
                  trade_timestamp = trade_counter eng + 1\<rparr>],
              book := (book eng)\<lparr>bids := [], asks := [(10, counter (book eng) + 1,
                \<lparr>entry_price = 10, timestamp = counter (book eng) + 1,
                  order = scenario_sell_4\<lparr>quantity := 2\<rparr>, remaining = 2\<rparr>)],
                counter := counter (book eng) + 1\<rparr>\<rparr>)"
  using assms
  by (simp add: process_order_def scenario_buy_def scenario_sell_4_def
      matching_loop.simps [of _ _ 4] matching_loop.simps [of _ _ 2] next_match_def
      execute_trade_def book_defs siftdown_loop.simps [of _ _ _ 0] Let_def)

text \<open>
  C3. The partial-fill scenario, on any engine with an empty book whose price-limit rule
  accepts the prices 9 and 10. The buy of 5 at 10 trades nothing and rests as the best
  bid. The sell of 3 at 9 makes one trade of 3 at the resting price 10 and leaves the
  same bid entry, same arrival sequence number, with 2 remaining. The sell of 4 at 10
  makes one trade of 2 at 10, which exhausts the bid, and rests as a new ask of 2 at 10.
\<close>

theorem scenario_partial_fills:
  assumes "bids (book eng) = []" and "asks (book eng) = []"
    and "is_valid_price (pl_rule eng) 10 (last_close_price eng)"
    and "is_valid_price (pl_rule eng) 9 (last_close_price eng)"
  shows "\<exists>e1 e2 e3 tr2 tr3 bid ask.
      process_order eng scenario_buy = Inr ([], e1)
    \<and> best_bid (book e1) = Some 10 \<and> peek_best_bid (book e1) = Some bid
    \<and> remaining bid = 5 \<and> timestamp bid = counter (book eng) + 1
    \<and> process_order e1 scenario_sell_3 = Inr ([tr2], e2)
    \<and> trade_price tr2 = 10 \<and> trade_quantity tr2 = 3
    \<and> best_bid (book e2) = Some 10
    \<and> peek_best_bid (book e2) = Some (bid\<lparr>remaining := 2\<rparr>)
    \<and> asks (book e2) = []
    \<and> process_order e2 scenario_sell_4 = Inr ([tr3], e3)
    \<and> trade_price tr3 = 10 \<and> trade_quantity tr3 = 2
    \<and> bids (book e3) = [] \<and> best_bid (book e3) = None
    \<and> asks (book e3) = [(10, timestamp ask, ask)] \<and> best_ask (book e3) = Some 10
    \<and> entry_price ask = 10 \<and> remaining ask = 2
    \<and> order ask = scenario_sell_4\<lparr>quantity := 2\<rparr>"
proof -
  let ?ts = "counter (book eng) + 1"
  let ?bid = "\<lparr>entry_price = 10, timestamp = ?ts, order = scenario_buy, remaining = 5\<rparr>"
  let ?e1 = "eng\<lparr>book := (book eng)\<lparr>bids := [(- 10, ?ts, ?bid)], counter := ?ts\<rparr>\<rparr>"
  have s1: "process_order eng scenario_buy = Inr ([], ?e1)"
    using assms(1-3) by (rule scenario_step_buy)
  have b1: "bids (book ?e1) = [(- 10, ?ts, ?bid)]" "asks (book ?e1) = []"
    "is_valid_price (pl_rule ?e1) 10 (last_close_price ?e1)"
    "is_valid_price (pl_rule ?e1) 9 (last_close_price ?e1)"
    using assms by simp_all
  note s2 = scenario_step_sell_3 [OF b1]
  let ?tr2 = "\<lparr>trade_price = 10, trade_quantity = 3, buyer_id = 1, seller_id = 2,
            tax_amount = calculate_tax (tt_rule ?e1) 10 3,
            trade_timestamp = trade_counter ?e1 + 1\<rparr>"
  let ?e2 = "?e1\<lparr>trade_counter := trade_counter ?e1 + 1, last_transaction_price := Some 10,
              trades_this_period := trades_this_period ?e1 @ [?tr2],
              book := (book ?e1)\<lparr>bids := [(- 10, ?ts, ?bid\<lparr>remaining := 2\<rparr>)]\<rparr>\<rparr>"
  have s2': "process_order ?e1 scenario_sell_3 = Inr ([?tr2], ?e2)"
    using s2 by simp
  have b2: "bids (book ?e2) = [(- 10, ?ts,
      \<lparr>entry_price = 10, timestamp = ?ts, order = scenario_buy, remaining = 2\<rparr>)]"
    "asks (book ?e2) = []"
    "is_valid_price (pl_rule ?e2) 10 (last_close_price ?e2)"
    using assms by simp_all
  note s3 = scenario_step_sell_4 [OF b2]
  let ?tr3 = "\<lparr>trade_price = 10, trade_quantity = 2, buyer_id = 1, seller_id = 3,
            tax_amount = calculate_tax (tt_rule ?e2) 10 2,
            trade_timestamp = trade_counter ?e2 + 1\<rparr>"
  let ?ask = "\<lparr>entry_price = 10, timestamp = counter (book ?e2) + 1,
                  order = scenario_sell_4\<lparr>quantity := 2\<rparr>, remaining = 2\<rparr>"
  let ?e3 = "?e2\<lparr>trade_counter := trade_counter ?e2 + 1, last_transaction_price := Some 10,
              trades_this_period := trades_this_period ?e2 @ [?tr3],
              book := (book ?e2)\<lparr>bids := [], asks := [(10, counter (book ?e2) + 1, ?ask)],
                counter := counter (book ?e2) + 1\<rparr>\<rparr>"
  have s3': "process_order ?e2 scenario_sell_4 = Inr ([?tr3], ?e3)"
    using s3 by simp
  have q1: "best_bid (book ?e1) = Some 10" "peek_best_bid (book ?e1) = Some ?bid"
    "remaining ?bid = 5" "timestamp ?bid = ?ts"
    by (simp_all add: best_bid_def peek_best_bid_def)
  have q2: "trade_price ?tr2 = 10" "trade_quantity ?tr2 = 3" "best_bid (book ?e2) = Some 10"
    "peek_best_bid (book ?e2) = Some (?bid\<lparr>remaining := 2\<rparr>)" "asks (book ?e2) = []"
    using assms by (simp_all add: best_bid_def peek_best_bid_def)
  have q3: "trade_price ?tr3 = 10" "trade_quantity ?tr3 = 2" "bids (book ?e3) = []"
    "best_bid (book ?e3) = None" "asks (book ?e3) = [(10, timestamp ?ask, ?ask)]"
    "best_ask (book ?e3) = Some 10" "entry_price ?ask = 10" "remaining ?ask = 2"
    "order ?ask = scenario_sell_4\<lparr>quantity := 2\<rparr>"
    by (simp_all add: best_bid_def best_ask_def)
  from s1 s2' s3' q1 q2 q3 show ?thesis
    by blast
qed

theorem scenario_partial_fills_witness:
  "bids (book example_engine) = [] \<and> asks (book example_engine) = []
   \<and> is_valid_price (pl_rule example_engine) 10 (last_close_price example_engine)
   \<and> is_valid_price (pl_rule example_engine) 9 (last_close_price example_engine)
   \<and> (\<exists>e1 e2 e3 tr2 tr3 bid ask.
      process_order example_engine scenario_buy = Inr ([], e1)
    \<and> best_bid (book e1) = Some 10 \<and> peek_best_bid (book e1) = Some bid
    \<and> remaining bid = 5 \<and> timestamp bid = 1
    \<and> process_order e1 scenario_sell_3 = Inr ([tr2], e2)
    \<and> trade_price tr2 = 10 \<and> trade_quantity tr2 = 3
    \<and> best_bid (book e2) = Some 10
    \<and> peek_best_bid (book e2) = Some (bid\<lparr>remaining := 2\<rparr>)
    \<and> asks (book e2) = []
    \<and> process_order e2 scenario_sell_4 = Inr ([tr3], e3)
    \<and> trade_price tr3 = 10 \<and> trade_quantity tr3 = 2
    \<and> bids (book e3) = [] \<and> best_bid (book e3) = None
    \<and> asks (book e3) = [(10, timestamp ask, ask)] \<and> best_ask (book e3) = Some 10
    \<and> entry_price ask = 10 \<and> remaining ask = 2
    \<and> order ask = scenario_sell_4\<lparr>quantity := 2\<rparr>)"
proof -
  have h: "bids (book example_engine) = []" "asks (book example_engine) = []"
    "is_valid_price (pl_rule example_engine) 10 (last_close_price example_engine)"
    "is_valid_price (pl_rule example_engine) 9 (last_close_price example_engine)"
    by (simp_all add: example_engine_def CDAEngine_init_def OrderBook_init_def
        is_valid_price_def)
  have c: "counter (book example_engine) + 1 = 1"
    by (simp add: example_engine_def CDAEngine_init_def OrderBook_init_def)
  from scenario_partial_fills [OF h] h show ?thesis
    unfolding c by blast
qed

text \<open>
  C10. On a book side that is empty, \<open>pop_best_bid\<close> and \<open>pop_best_ask\<close> raise
  \<open>IndexError\<close> (the \<open>heap.pop()\<close> inside \<open>heappop\<close>), while the four queries return
  \<open>None\<close>.
\<close>

theorem pop_on_empty_side_raises:
  "(bids b = [] \<longrightarrow>
      pop_best_bid b = Inl IndexError \<and> best_bid b = None \<and> peek_best_bid b = None)
   \<and> (asks b = [] \<longrightarrow>
      pop_best_ask b = Inl IndexError \<and> best_ask b = None \<and> peek_best_ask b = None)"
  by (simp add: pop_best_bid_def pop_best_ask_def heappop_def best_bid_def best_ask_def
      peek_best_bid_def peek_best_ask_def)

theorem pop_on_empty_side_raises_witness:
  "bids OrderBook_init = [] \<and> asks OrderBook_init = []
   \<and> pop_best_bid OrderBook_init = Inl IndexError \<and> best_bid OrderBook_init = None
   \<and> peek_best_bid OrderBook_init = None
   \<and> pop_best_ask OrderBook_init = Inl IndexError \<and> best_ask OrderBook_init = None
   \<and> peek_best_ask OrderBook_init = None"
  using pop_on_empty_side_raises [of OrderBook_init]
  by (simp add: OrderBook_init_def)

section \<open>The heap invariant and its preservation\<close>

lemma item_lt_True: "item_lt a b = Inr True \<Longrightarrow> key a < key b"
  by (cases a; cases b) (auto simp: item_lt_def key_def less_prod_def split: if_splits)

lemma item_lt_False: "item_lt a b = Inr False \<Longrightarrow> key b \<le> key a"
  by (cases a; cases b) (auto simp: item_lt_def key_def less_eq_prod_def split: if_splits)

lemma item_lt_error: "item_lt a b = Inl e \<Longrightarrow> e = TypeError \<and> key a = key b \<and> a \<noteq> b"
  by (cases a; cases b) (auto simp: item_lt_def key_def split: if_splits)

lemma parent_less: "0 < i \<Longrightarrow> parent i < i"
  by (simp add: parent_def)

lemma parent_eq_iff: "0 < i \<Longrightarrow> parent i = p \<longleftrightarrow> i = 2 * p + 1 \<or> i = 2 * p + 2"
  by (simp add: parent_def) arith

lemma heap_but_done:
  assumes "heap_but h pos" and "pos = 0 \<or> key (h ! parent pos) \<le> key (h ! pos)"
  shows "is_heap h"
  using assms unfolding heap_but_def is_heap_def
  by (metis atLeastLessThan_iff less_one not_le)

lemma heap_but_step:
  assumes inv: "heap_but h pos" and pos: "0 < pos" "pos < length h"
    and lt: "key (h ! pos) < key (h ! parent pos)"
  shows "heap_but (h[pos := h ! parent pos, parent pos := h ! pos]) (parent pos)"
proof -
  let ?pp = "parent pos"
  let ?h = "h[pos := h ! ?pp, ?pp := h ! pos]"
  have pp: "?pp < pos" using pos by (simp add: parent_less)
  have A: "key (h ! parent i) \<le> key (h ! i)" if "1 \<le> i" "i < length h" "i \<noteq> pos" for i
    using inv that by (simp add: heap_but_def)
  have B: "key (h ! ?pp) \<le> key (h ! i)" if "1 \<le> i" "i < length h" "parent i = pos" for i
    using inv that pos by (simp add: heap_but_def)
  have 1: "key (?h ! parent i) \<le> key (?h ! i)"
    if i: "1 \<le> i" "i < length h" "i \<noteq> ?pp" for i
  proof -
    have pi: "parent i < i" using i by (simp add: parent_less)
    consider "i = pos" | "i \<noteq> pos" "parent i = pos" | "i \<noteq> pos" "parent i = ?pp"
      | "i \<noteq> pos" "parent i \<noteq> pos" "parent i \<noteq> ?pp"
      by blast
    then show ?thesis
    proof cases
      case 1
      with pos pp lt show ?thesis by simp
    next
      case 2
      with B [of i] i pos pp pi show ?thesis by simp
    next
      case 3
      with A [of i] i pos pp lt show ?thesis by (simp add: nth_list_update)
    next
      case 4
      with A [of i] i pos pp show ?thesis by simp
    qed
  qed
  have 2: "key (?h ! parent ?pp) \<le> key (?h ! i)"
    if i: "1 \<le> i" "i < length h" "parent i = ?pp" "0 < ?pp" for i
  proof -
    have ppp: "parent ?pp < ?pp" using i by (simp add: parent_less)
    have g: "key (h ! parent ?pp) \<le> key (h ! ?pp)"
      using A [of ?pp] i pp pos by simp
    show ?thesis
    proof (cases "i = pos")
      case True
      with g pos pp ppp show ?thesis by simp
    next
      case False
      with A [of i] i have "key (h ! ?pp) \<le> key (h ! i)" by simp
      with g have "key (h ! parent ?pp) \<le> key (h ! i)" by (rule order_trans)
      moreover have "i \<noteq> ?pp" using parent_less [of i] i by auto
      ultimately show ?thesis using False i pos pp ppp by simp
    qed
  qed
  from 1 2 show ?thesis
    by (simp add: heap_but_def)
qed

lemma siftdown_loop_heap:
  "siftdown_loop heap 0 newitem pos = Inr h \<Longrightarrow> pos < length heap \<Longrightarrow>
     heap_but (heap[pos := newitem]) pos \<Longrightarrow> is_heap h"
proof (induction heap "0::nat" newitem pos arbitrary: h rule: siftdown_loop.induct)
  case (1 heap newitem pos)
  let ?H = "heap[pos := newitem]"
  show ?case
  proof (cases "0 < pos")
    case False
    with "1.prems" have "h = ?H"
      by (simp add: siftdown_loop.simps [of heap 0 newitem pos])
    with heap_but_done [OF "1.prems"(3)] False show ?thesis by simp
  next
    case True
    let ?pp = "(pos - 1) div 2"
    have pp: "?pp < pos" "?pp = parent pos" using True by (simp_all add: parent_def)
    from "1.prems"(1) True obtain lt where lt: "item_lt newitem (heap ! ?pp) = Inr lt"
      by (auto simp: siftdown_loop.simps [of heap 0 newitem pos] Let_def split: sum.splits)
    show ?thesis
    proof (cases lt)
      case False
      with lt "1.prems" True have h: "h = ?H"
        by (simp add: siftdown_loop.simps [of heap 0 newitem pos] Let_def)
      from lt False have "key (heap ! ?pp) \<le> key newitem"
        by (intro item_lt_False) simp
      with pp "1.prems"(2) have "key (?H ! parent pos) \<le> key (?H ! pos)" by simp
      with heap_but_done [OF "1.prems"(3)] h show ?thesis by simp
    next
      case tr: True
      with lt "1.prems" True
      have rec: "siftdown_loop (heap[pos := heap ! ?pp]) 0 newitem ?pp = Inr h"
        by (simp add: siftdown_loop.simps [of heap 0 newitem pos] Let_def)
      from lt tr have "key newitem < key (heap ! ?pp)"
        by (intro item_lt_True) simp
      with pp "1.prems"(2) have "key (?H ! pos) < key (?H ! parent pos)" by simp
      from heap_but_step [OF "1.prems"(3) True _ this] "1.prems"(2)
      have "heap_but (?H[pos := ?H ! parent pos, parent pos := ?H ! pos]) (parent pos)"
        by simp
      moreover have "?H[pos := ?H ! parent pos, parent pos := ?H ! pos]
          = (heap[pos := heap ! ?pp])[?pp := newitem]"
        using pp "1.prems"(2) by simp
      ultimately have "heap_but ((heap[pos := heap ! ?pp])[?pp := newitem]) ?pp"
        using pp by simp
      with "1.hyps" [OF True refl refl lt tr rec] pp "1.prems"(2) show ?thesis
        by simp
    qed
  qed
qed

lemma mset_swap_update:
  assumes "i < length xs" "j < length xs" "i \<noteq> j"
  shows "mset (xs[i := xs ! j, j := v]) = mset (xs[i := v])"
proof -
  let ?y = "xs[i := v]"
  have "mset (?y[j := ?y ! i, i := ?y ! j]) = mset ?y"
    using assms by (intro mset_swap) simp_all
  moreover have "?y[j := ?y ! i, i := ?y ! j] = xs[i := xs ! j, j := v]"
    using assms by (simp add: list_eq_iff_nth_eq nth_list_update)
  ultimately show ?thesis by simp
qed

lemma siftdown_loop_mset:
  "siftdown_loop heap startpos newitem pos = Inr h \<Longrightarrow> pos < length heap \<Longrightarrow>
     mset h = mset (heap[pos := newitem])"
proof (induction heap startpos newitem pos arbitrary: h rule: siftdown_loop.induct)
  case (1 heap startpos newitem pos)
  show ?case
  proof (cases "startpos < pos")
    case False
    with "1.prems" show ?thesis
      by (simp add: siftdown_loop.simps [of heap startpos newitem pos])
  next
    case True
    let ?pp = "(pos - 1) div 2"
    have pp: "?pp < pos" using True by simp
    from "1.prems"(1) True obtain lt where lt: "item_lt newitem (heap ! ?pp) = Inr lt"
      by (auto simp: siftdown_loop.simps [of heap startpos newitem pos] Let_def split: sum.splits)
    show ?thesis
    proof (cases lt)
      case False
      with lt "1.prems" True show ?thesis
        by (simp add: siftdown_loop.simps [of heap startpos newitem pos] Let_def)
    next
      case tr: True
      with lt "1.prems" True
      have rec: "siftdown_loop (heap[pos := heap ! ?pp]) startpos newitem ?pp = Inr h"
        by (simp add: siftdown_loop.simps [of heap startpos newitem pos] Let_def)
      from "1.IH" [OF True refl refl lt tr rec] pp "1.prems"(2)
      have "mset h = mset (heap[pos := heap ! ?pp, ?pp := newitem])" by simp
      also have "\<dots> = mset (heap[pos := newitem])"
        using pp "1.prems"(2) by (intro mset_swap_update) simp_all
      finally show ?thesis .
    qed
  qed
qed

lemma siftdown_loop_error:
  "siftdown_loop heap startpos newitem pos = Inl e \<Longrightarrow> e = TypeError"
proof (induction heap startpos newitem pos rule: siftdown_loop.induct)
  case (1 heap startpos newitem pos)
  then show ?case
    by (subst (asm) (2) siftdown_loop.simps)
       (auto simp: Let_def split: if_splits sum.splits dest: item_lt_error)
qed

lemma smaller_child_least:
  assumes "smaller_child heap endpos cp = Inr c" and "cp < endpos"
  shows "c < endpos \<and> (c = cp \<or> c = cp + 1)
     \<and> key (heap ! c) \<le> key (heap ! cp)
     \<and> (cp + 1 < endpos \<longrightarrow> key (heap ! c) \<le> key (heap ! (cp + 1)))"
proof (cases "cp + 1 < endpos")
  case False
  with assms show ?thesis by (simp add: smaller_child_def)
next
  case True
  with assms obtain lt where lt: "item_lt (heap ! cp) (heap ! (cp + 1)) = Inr lt"
    and c: "c = (if \<not> lt then cp + 1 else cp)"
    by (auto simp: smaller_child_def split: sum.splits)
  show ?thesis
  proof (cases lt)
    case True
    with lt have "key (heap ! cp) < key (heap ! (cp + 1))"
      by (intro item_lt_True) simp
    with c True assms(2) show ?thesis by (simp add: less_imp_le)
  next
    case False
    with lt have "key (heap ! (cp + 1)) \<le> key (heap ! cp)"
      by (intro item_lt_False) simp
    with c False \<open>cp + 1 < endpos\<close> show ?thesis by simp
  qed
qed

lemma smaller_child_error: "smaller_child heap endpos cp = Inl e \<Longrightarrow> e = TypeError"
  by (auto simp: smaller_child_def split: if_splits sum.splits dest: item_lt_error)

lemma heap_hole_step:
  assumes inv: "heap_hole h pos" and c: "c < length h" "parent c = pos" "0 < c"
    and least: "\<And>i. 0 < i \<Longrightarrow> i < length h \<Longrightarrow> parent i = pos \<Longrightarrow> key (h ! c) \<le> key (h ! i)"
  shows "heap_hole (h[pos := h ! c]) c"
proof -
  let ?h = "h[pos := h ! c]"
  have pc: "pos < c" using c parent_less [of c] by simp
  have A: "key (h ! parent i) \<le> key (h ! i)"
    if "1 \<le> i" "i < length h" "i \<noteq> pos" "parent i \<noteq> pos" for i
    using inv that by (simp add: heap_hole_def)
  have B: "key (h ! parent pos) \<le> key (h ! i)"
    if "1 \<le> i" "i < length h" "i \<noteq> pos" "parent i = pos" "0 < pos" for i
    using inv that by (simp add: heap_hole_def)
  have 1: "key (?h ! parent i) \<le> key (?h ! i)"
    if i: "1 \<le> i" "i < length h" "i \<noteq> c" "parent i \<noteq> c" for i
  proof -
    have pi: "parent i < i" using i by (simp add: parent_less)
    consider "i = pos" | "i \<noteq> pos" "parent i = pos" | "i \<noteq> pos" "parent i \<noteq> pos"
      by blast
    then show ?thesis
    proof cases
      case 1
      with B [of c] c pc i pi show ?thesis by simp
    next
      case 2
      with least [of i] i pc c show ?thesis by simp
    next
      case 3
      with A [of i] i show ?thesis by simp
    qed
  qed
  have 2: "key (?h ! parent c) \<le> key (?h ! i)"
    if i: "1 \<le> i" "i < length h" "i \<noteq> c" "parent i = c" for i
  proof -
    have "c < i" using i parent_less [of i] by simp
    with pc have "i \<noteq> pos" "parent i \<noteq> pos" using i by simp_all
    with A [of i] i c pc show ?thesis by simp
  qed
  from 1 2 show ?thesis
    by (simp add: heap_hole_def)
qed

lemma siftup_loop_hole:
  "siftup_loop heap endpos pos = Inr (h, q) \<Longrightarrow> endpos = length heap \<Longrightarrow> pos < length heap \<Longrightarrow>
     heap_hole heap pos \<Longrightarrow> heap_hole h q \<and> q < length h \<and> length h \<le> 2 * q + 1"
proof (induction heap endpos pos arbitrary: h q rule: siftup_loop.induct)
  case (1 heap endpos pos)
  show ?case
  proof (cases "2 * pos + 1 < endpos")
    case False
    with "1.prems"(1) have "h = heap" "q = pos"
      by (simp_all add: siftup_loop.simps [of heap endpos pos])
    with False "1.prems" show ?thesis
      by simp
  next
    case True
    from "1.prems"(1) True obtain c where
      sc: "smaller_child heap endpos (2 * pos + 1) = Inr c"
      and rec: "siftup_loop (heap[pos := heap ! c]) endpos c = Inr (h, q)"
      by (auto simp: siftup_loop.simps [of heap endpos pos] split: sum.splits)
    note sl = smaller_child_least [OF sc True]
    have c: "c < length heap" "parent c = pos" "0 < c"
      using sl "1.prems"(2) by (auto simp: parent_def)
    have "heap_hole (heap[pos := heap ! c]) c"
    proof (rule heap_hole_step [OF "1.prems"(4) c])
      fix i assume i: "0 < i" "i < length heap" "parent i = pos"
      then have "i = 2 * pos + 1 \<or> i = 2 * pos + 2"
        by (simp add: parent_eq_iff)
      with sl i "1.prems"(2) show "key (heap ! c) \<le> key (heap ! i)"
        by auto
    qed
    with "1.IH" [OF True sc rec] "1.prems"(2) c show ?thesis
      by simp
  qed
qed

lemma siftup_loop_mset:
  "siftup_loop heap endpos pos = Inr (h, q) \<Longrightarrow> endpos = length heap \<Longrightarrow> pos < length heap \<Longrightarrow>
     q < length heap \<and> mset (h[q := x]) = mset (heap[pos := x])"
proof (induction heap endpos pos arbitrary: h q rule: siftup_loop.induct)
  case (1 heap endpos pos)
  show ?case
  proof (cases "2 * pos + 1 < endpos")
    case False
    with "1.prems"(1) have "h = heap" "q = pos"
      by (simp_all add: siftup_loop.simps [of heap endpos pos])
    with False "1.prems" show ?thesis
      by simp
  next
    case True
    from "1.prems"(1) True obtain c where
      sc: "smaller_child heap endpos (2 * pos + 1) = Inr c"
      and rec: "siftup_loop (heap[pos := heap ! c]) endpos c = Inr (h, q)"
      by (auto simp: siftup_loop.simps [of heap endpos pos] split: sum.splits)
    note sl = smaller_child_least [OF sc True]
    have c: "c < length heap" "pos \<noteq> c"
      using sl "1.prems"(2) by auto
    from "1.IH" [OF True sc rec] "1.prems"(2) c
    have "q < length heap" and "mset (h[q := x]) = mset (heap[pos := heap ! c, c := x])"
      by simp_all
    moreover have "mset (heap[pos := heap ! c, c := x]) = mset (heap[pos := x])"
      using c "1.prems"(3) by (intro mset_swap_update) simp_all
    ultimately show ?thesis by simp
  qed
qed

lemma siftup_loop_error:
  "siftup_loop heap endpos pos = Inl e \<Longrightarrow> e = TypeError"
proof (induction heap endpos pos rule: siftup_loop.induct)
  case (1 heap endpos pos)
  then show ?case
    by (subst (asm) (2) siftup_loop.simps)
       (auto split: if_splits sum.splits dest: smaller_child_error)
qed

lemma is_heap_Nil [simp]: "is_heap []"
  by (simp add: is_heap_def)

lemma is_heap_butlast:
  assumes "is_heap h"
  shows "is_heap (butlast h)"
  unfolding is_heap_def
proof
  fix i assume "i \<in> {1..<length (butlast h)}"
  then have i: "1 \<le> i" "i < length (butlast h)" by simp_all
  then have p: "parent i < length (butlast h)" using parent_less [of i] by simp
  from i assms have "key (h ! parent i) \<le> key (h ! i)"
    by (simp add: is_heap_def)
  with i p show "key (butlast h ! parent i) \<le> key (butlast h ! i)"
    by (simp add: nth_butlast)
qed

lemma heap_root_least:
  assumes "is_heap h" and "i < length h"
  shows "key (h ! 0) \<le> key (h ! i)"
  using assms(2)
proof (induction i rule: less_induct)
  case (less i)
  show ?case
  proof (cases "i = 0")
    case True
    then show ?thesis by simp
  next
    case False
    then have p: "parent i < i" by (simp add: parent_less)
    with less.prems have "key (h ! 0) \<le> key (h ! parent i)"
      by (intro less.IH) simp_all
    also from assms(1) False less.prems have "\<dots> \<le> key (h ! i)"
      by (simp add: is_heap_def)
    finally show ?thesis .
  qed
qed

lemma heappush_heap:
  assumes "is_heap heap" and "heappush heap item = Inr h"
  shows "is_heap h"
proof -
  let ?n = "length heap"
  from assms(2) have loop: "siftdown_loop (heap @ [item]) 0 item ?n = Inr h"
    by (simp add: heappush_def siftdown_def)
  have "heap_but (heap @ [item]) ?n"
    unfolding heap_but_def
  proof (intro conjI ballI impI)
    fix i assume "i \<in> {1..<length (heap @ [item])}" "i \<noteq> ?n"
    then have i: "1 \<le> i" "i < ?n" by simp_all
    then have "parent i < ?n" using parent_less [of i] by simp
    with i assms(1) show "key ((heap @ [item]) ! parent i) \<le> key ((heap @ [item]) ! i)"
      by (simp add: is_heap_def nth_append)
  next
    fix i assume "i \<in> {1..<length (heap @ [item])}" "parent i = ?n \<and> 0 < ?n"
    then have False using parent_less [of i] by simp
    then show "key ((heap @ [item]) ! parent ?n) \<le> key ((heap @ [item]) ! i)" ..
  qed
  then have "heap_but ((heap @ [item])[?n := item]) ?n"
    by simp
  with loop show ?thesis
    by (intro siftdown_loop_heap [of "heap @ [item]" item ?n]) simp_all
qed

lemma heappush_mset:
  assumes "heappush heap item = Inr h"
  shows "mset h = add_mset item (mset heap)"
proof -
  from assms have "siftdown_loop (heap @ [item]) 0 item (length heap) = Inr h"
    by (simp add: heappush_def siftdown_def)
  from siftdown_loop_mset [OF this] show ?thesis
    by simp
qed

lemma heappush_error: "heappush heap item = Inl e \<Longrightarrow> e = TypeError"
  by (auto simp: heappush_def siftdown_def dest: siftdown_loop_error)

lemma siftup_root_heap:
  assumes heap: "is_heap heap1" and ne: "heap1 \<noteq> []"
    and up: "siftup (heap1[0 := x]) 0 = Inr h"
  shows "is_heap h \<and> mset h = mset (heap1[0 := x])"
proof -
  let ?g = "heap1[0 := x]"
  from up ne obtain h' q where loop: "siftup_loop ?g (length ?g) 0 = Inr (h', q)"
    and down: "siftdown (h'[q := x]) 0 q = Inr h"
    by (auto simp: siftup_def Let_def split: sum.splits)
  have hole: "heap_hole ?g 0"
    unfolding heap_hole_def
  proof (intro ballI impI conjI)
    fix i assume i: "i \<in> {1..<length ?g}" "i \<noteq> 0" "parent i \<noteq> 0"
    with heap show "key (?g ! parent i) \<le> key (?g ! i)"
      by (simp add: is_heap_def)
  next
    fix i assume "parent i = 0 \<and> (0::nat) < 0"
    then show "key (?g ! parent 0) \<le> key (?g ! i)" by simp
  qed
  from siftup_loop_hole [OF loop refl _ hole] ne
  have h': "heap_hole h' q" "q < length h'" "length h' \<le> 2 * q + 1"
    by simp_all
  from siftup_loop_mset [OF loop refl, of x] ne
  have m: "mset (h'[q := x]) = mset ?g"
    by simp
  have leaf: "parent i \<noteq> q" if "0 < i" "i < length h'" for i
    using that h'(3) by (auto simp: parent_eq_iff)
  have but: "heap_but (h'[q := x]) q"
    unfolding heap_but_def
  proof (intro conjI ballI impI)
    fix i assume i: "i \<in> {1..<length (h'[q := x])}" "i \<noteq> q"
    with leaf [of i] h'(1) show "key (h'[q := x] ! parent i) \<le> key (h'[q := x] ! i)"
      by (simp add: heap_hole_def)
  next
    fix i assume "i \<in> {1..<length (h'[q := x])}" "parent i = q \<and> 0 < q"
    with leaf [of i] have False by simp
    then show "key (h'[q := x] ! parent q) \<le> key (h'[q := x] ! i)" ..
  qed
  from down h'(2) have dl: "siftdown_loop (h'[q := x]) 0 x q = Inr h"
    by (simp add: siftdown_def)
  from siftdown_loop_heap [OF dl] but h'(2) have "is_heap h"
    by simp
  moreover from siftdown_loop_mset [OF dl] h'(2) m have "mset h = mset ?g"
    by simp
  ultimately show ?thesis ..
qed

lemma siftup_error:
  assumes "siftup heap pos = Inl e" and pos: "pos < length heap"
  shows "e = TypeError"
proof (cases "siftup_loop heap (length heap) pos")
  case (Inl e')
  with assms have "e' = e" by (simp add: siftup_def)
  with Inl siftup_loop_error show ?thesis by blast
next
  case (Inr r)
  obtain h' q where r: "r = (h', q)" by (cases r)
  from siftup_loop_mset [OF Inr [unfolded r] refl pos] length_siftup_loop [OF Inr [unfolded r]]
  have "q < length h'" by simp
  with assms Inr r have "siftdown_loop (h'[q := heap ! pos]) pos (heap ! pos) q = Inl e"
    by (simp add: siftup_def siftdown_def)
  then show ?thesis by (rule siftdown_loop_error)
qed

lemma heappop_heap:
  assumes heap: "is_heap heap" and pop: "heappop heap = Inr (it, h)"
  shows "is_heap h \<and> mset heap = add_mset it (mset h)"
proof -
  from pop have ne: "heap \<noteq> []"
    by (auto simp: heappop_def)
  then have split: "heap = butlast heap @ [last heap]"
    by simp
  show ?thesis
  proof (cases "butlast heap = []")
    case True
    with pop ne have "h = []" "it = last heap"
      by (simp_all add: heappop_def Let_def)
    with True split show ?thesis
      by (metis append_Nil is_heap_Nil mset.simps(1) mset.simps(2))
  next
    case False
    with pop ne have up: "siftup ((butlast heap)[0 := last heap]) 0 = Inr h"
      and it: "it = butlast heap ! 0"
      by (auto simp: heappop_def Let_def split: sum.splits)
    from siftup_root_heap [OF is_heap_butlast [OF heap] False up]
    have h: "is_heap h" "mset h = mset ((butlast heap)[0 := last heap])"
      by simp_all
    from False have len: "0 < length (butlast heap)"
      by (simp del: length_butlast)
    then have "mset ((butlast heap)[0 := last heap])
        = add_mset (last heap) (mset (butlast heap) - {#butlast heap ! 0#})"
      by (rule mset_update)
    moreover from len have "butlast heap ! 0 \<in># mset (butlast heap)"
      by (simp del: length_butlast)
    moreover have "mset heap = add_mset (last heap) (mset (butlast heap))"
      by (subst split) simp
    ultimately have "mset heap = add_mset it (mset h)"
      using h(2) it by simp
    with h(1) show ?thesis ..
  qed
qed

lemma heappop_error:
  "heappop heap = Inl e \<Longrightarrow> (heap = [] \<and> e = IndexError) \<or> (heap \<noteq> [] \<and> e = TypeError)"
  by (cases "heap = []"; cases "butlast heap = []")
     (auto simp: heappop_def Let_def split: sum.splits dest!: siftup_error)

lemma book_inv_init: "book_inv OrderBook_init"
  by (simp add: book_inv_def OrderBook_init_def)

lemma set_mset_eq: "mset h = add_mset x (mset g) \<Longrightarrow> set h = insert x (set g)"
  by (metis set_mset_add_mset_insert set_mset_mset)

lemma add_limit_cases:
  assumes "add_limit b ord = Inr b'"
  obtains (rejected) "quantity ord \<le> 0 \<or> price ord \<le> 0" "b' = b"
  | (bid) h where "quantity ord > 0" "price ord > 0" "direction ord = 1"
      "heappush (bids b)
         (bid_item \<lparr>entry_price = price ord, timestamp = counter b + 1, order = ord,
                    remaining = quantity ord\<rparr>) = Inr h"
      "b' = b\<lparr>counter := counter b + 1, bids := h\<rparr>"
  | (ask) h where "quantity ord > 0" "price ord > 0" "direction ord \<noteq> 1"
      "heappush (asks b)
         (ask_item \<lparr>entry_price = price ord, timestamp = counter b + 1, order = ord,
                    remaining = quantity ord\<rparr>) = Inr h"
      "b' = b\<lparr>counter := counter b + 1, asks := h\<rparr>"
  using assms
  by (auto simp: add_limit_def next_ts_def Let_def bid_item_def ask_item_def
      split: if_splits sum.splits)

lemma reinsert_cases:
  assumes "reinsert b e = Inr b'"
  obtains (rejected) "remaining e \<le> 0" "b' = b"
  | (bid) h where "remaining e > 0" "direction (order e) = 1"
      "heappush (bids b) (bid_item e) = Inr h" "b' = b\<lparr>bids := h\<rparr>"
  | (ask) h where "remaining e > 0" "direction (order e) \<noteq> 1"
      "heappush (asks b) (ask_item e) = Inr h" "b' = b\<lparr>asks := h\<rparr>"
  using assms
  by (auto simp: reinsert_def bid_item_def ask_item_def split: if_splits sum.splits)

lemma pop_best_bid_cases:
  assumes "pop_best_bid b = Inr (e, b')"
  obtains it h where "heappop (bids b) = Inr (it, h)" "e = snd (snd it)" "b' = b\<lparr>bids := h\<rparr>"
  using assms by (auto simp: pop_best_bid_def split: sum.splits prod.splits)

lemma pop_best_ask_cases:
  assumes "pop_best_ask b = Inr (e, b')"
  obtains it h where "heappop (asks b) = Inr (it, h)" "e = snd (snd it)" "b' = b\<lparr>asks := h\<rparr>"
  using assms by (auto simp: pop_best_ask_def split: sum.splits prod.splits)

lemma book_inv_push_bid:
  assumes "book_inv b" "heappush (bids b) (bid_item e) = Inr h"
    and "bids b' = h" "asks b' = asks b"
  shows "book_inv b'"
  using assms heappush_heap [OF _ assms(2)] set_mset_eq [OF heappush_mset [OF assms(2)]]
  by (auto simp: book_inv_def bid_item_def)

lemma book_inv_push_ask:
  assumes "book_inv b" "heappush (asks b) (ask_item e) = Inr h"
    and "asks b' = h" "bids b' = bids b"
  shows "book_inv b'"
  using assms heappush_heap [OF _ assms(2)] set_mset_eq [OF heappush_mset [OF assms(2)]]
  by (auto simp: book_inv_def ask_item_def)

lemma book_inv_pop_bid:
  assumes "book_inv b" "heappop (bids b) = Inr (it, h)"
  shows "book_inv (b\<lparr>bids := h\<rparr>)"
proof -
  from assms have hp: "is_heap h" "mset (bids b) = add_mset it (mset h)"
    using heappop_heap [of "bids b" it h] by (simp_all add: book_inv_def)
  from set_mset_eq [OF hp(2)] have "set h \<subseteq> set (bids b)" by auto
  with assms(1) hp(1) show ?thesis by (auto simp: book_inv_def)
qed

lemma book_inv_pop_ask:
  assumes "book_inv b" "heappop (asks b) = Inr (it, h)"
  shows "book_inv (b\<lparr>asks := h\<rparr>)"
proof -
  from assms have hp: "is_heap h" "mset (asks b) = add_mset it (mset h)"
    using heappop_heap [of "asks b" it h] by (simp_all add: book_inv_def)
  from set_mset_eq [OF hp(2)] have "set h \<subseteq> set (asks b)" by auto
  with assms(1) hp(1) show ?thesis by (auto simp: book_inv_def)
qed

lemma book_inv_add_limit:
  assumes "book_inv b" "add_limit b ord = Inr b'"
  shows "book_inv b'"
  using assms(2)
proof (cases rule: add_limit_cases)
  case rejected
  with assms(1) show ?thesis by simp
next
  case (bid h)
  from book_inv_push_bid [OF assms(1) bid(4), of b'] bid(5) show ?thesis by simp
next
  case (ask h)
  from book_inv_push_ask [OF assms(1) ask(4), of b'] ask(5) show ?thesis by simp
qed

lemma book_inv_reinsert:
  assumes "book_inv b" "reinsert b e = Inr b'"
  shows "book_inv b'"
  using assms(2)
proof (cases rule: reinsert_cases)
  case rejected
  with assms(1) show ?thesis by simp
next
  case (bid h)
  from book_inv_push_bid [OF assms(1) bid(3), of b'] bid(4) show ?thesis by simp
next
  case (ask h)
  from book_inv_push_ask [OF assms(1) ask(3), of b'] ask(4) show ?thesis by simp
qed

lemma book_inv_run_op: "book_inv b \<Longrightarrow> run_op b x = Inr b' \<Longrightarrow> book_inv b'"
proof (cases x)
  case (Add_limit ord)
  then show "book_inv b \<Longrightarrow> run_op b x = Inr b' \<Longrightarrow> book_inv b'"
    by (simp add: book_inv_add_limit)
next
  case (Reinsert e)
  then show "book_inv b \<Longrightarrow> run_op b x = Inr b' \<Longrightarrow> book_inv b'"
    by (simp add: book_inv_reinsert)
next
  case Pop_best_bid
  then show "book_inv b \<Longrightarrow> run_op b x = Inr b' \<Longrightarrow> book_inv b'"
    by (auto split: sum.splits elim!: pop_best_bid_cases dest: book_inv_pop_bid)
next
  case Pop_best_ask
  then show "book_inv b \<Longrightarrow> run_op b x = Inr b' \<Longrightarrow> book_inv b'"
    by (auto split: sum.splits elim!: pop_best_ask_cases dest: book_inv_pop_ask)
qed

lemma book_inv_run_ops: "book_inv b \<Longrightarrow> run_ops b xs = Inr b' \<Longrightarrow> book_inv b'"
proof (induction xs arbitrary: b)
  case Nil
  then show ?case by simp
next
  case (Cons x xs)
  then show ?case
    by (auto split: sum.splits dest: book_inv_run_op)
qed

lemma item_lt_returns:
  assumes "key a = key b \<Longrightarrow> a = b"
  shows "\<exists>r. item_lt a b = Inr r"
proof (cases "item_lt a b")
  case (Inl e)
  from item_lt_error [OF Inl] assms show ?thesis by simp
next
  case (Inr r)
  then show ?thesis by blast
qed

lemma siftdown_loop_returns:
  "pos < length heap \<Longrightarrow> inj_on key (insert newitem (set heap)) \<Longrightarrow>
     \<exists>h. siftdown_loop heap startpos newitem pos = Inr h"
proof (induction heap startpos newitem pos rule: siftdown_loop.induct)
  case (1 heap startpos newitem pos)
  show ?case
  proof (cases "startpos < pos")
    case False
    then show ?thesis
      by (simp add: siftdown_loop.simps [of heap startpos newitem pos])
  next
    case True
    let ?pp = "(pos - 1) div 2"
    from True "1.prems"(1) have pp: "?pp < length heap" by simp
    then have mem: "heap ! ?pp \<in> set heap" by simp
    with "1.prems"(2) have "key newitem = key (heap ! ?pp) \<Longrightarrow> newitem = heap ! ?pp"
      by (simp add: inj_on_def)
    from item_lt_returns [OF this] obtain r where r: "item_lt newitem (heap ! ?pp) = Inr r"
      by blast
    show ?thesis
    proof (cases r)
      case False
      with r True show ?thesis
        by (simp add: siftdown_loop.simps [of heap startpos newitem pos] Let_def)
    next
      case tr: True
      have "set (heap[pos := heap ! ?pp]) \<subseteq> set heap"
        using mem set_update_subset_insert [of heap pos "heap ! ?pp"] by auto
      then have "insert newitem (set (heap[pos := heap ! ?pp])) \<subseteq> insert newitem (set heap)"
        by auto
      with "1.prems"(2) have "inj_on key (insert newitem (set (heap[pos := heap ! ?pp])))"
        by (rule inj_on_subset)
      with "1.IH" [OF True refl refl r tr] pp
      obtain h where "siftdown_loop (heap[pos := heap ! ?pp]) startpos newitem ?pp = Inr h"
        by auto
      with r tr True show ?thesis
        by (simp add: siftdown_loop.simps [of heap startpos newitem pos] Let_def)
    qed
  qed
qed

lemma smaller_child_returns:
  assumes "inj_on key (set heap)" "endpos = length heap" "cp < endpos"
  shows "\<exists>c. smaller_child heap endpos cp = Inr c"
proof (cases "cp + 1 < endpos")
  case False
  then show ?thesis by (simp add: smaller_child_def)
next
  case True
  with assms have "heap ! cp \<in> set heap" "heap ! (cp + 1) \<in> set heap" by simp_all
  with assms(1) have "key (heap ! cp) = key (heap ! (cp + 1)) \<Longrightarrow> heap ! cp = heap ! (cp + 1)"
    by (simp add: inj_on_def)
  from item_lt_returns [OF this] obtain r where "item_lt (heap ! cp) (heap ! (cp + 1)) = Inr r"
    by blast
  with True show ?thesis by (simp add: smaller_child_def)
qed

lemma siftup_loop_returns:
  "endpos = length heap \<Longrightarrow> inj_on key (set heap) \<Longrightarrow>
     \<exists>h q. siftup_loop heap endpos pos = Inr (h, q) \<and> set h \<subseteq> set heap"
proof (induction heap endpos pos rule: siftup_loop.induct)
  case (1 heap endpos pos)
  show ?case
  proof (cases "2 * pos + 1 < endpos")
    case False
    then show ?thesis
      by (simp add: siftup_loop.simps [of heap endpos pos])
  next
    case True
    from smaller_child_returns [OF "1.prems"(2,1) True]
    obtain c where c: "smaller_child heap endpos (2 * pos + 1) = Inr c" by blast
    from smaller_child_least [OF c True] "1.prems"(1) have "c < length heap" by simp
    then have sub: "set (heap[pos := heap ! c]) \<subseteq> set heap"
      using set_update_subset_insert [of heap pos "heap ! c"] by auto
    with "1.prems"(2) have "inj_on key (set (heap[pos := heap ! c]))"
      by (rule inj_on_subset)
    with "1.IH" [OF True c] "1.prems"(1)
    obtain h q where "siftup_loop (heap[pos := heap ! c]) endpos c = Inr (h, q)"
      "set h \<subseteq> set (heap[pos := heap ! c])" by auto
    with c True sub show ?thesis
      by (auto simp: siftup_loop.simps [of heap endpos pos])
  qed
qed

lemma heappush_returns:
  assumes "inj_on key (insert item (set heap))"
  shows "\<exists>h. heappush heap item = Inr h"
proof -
  from assms have "inj_on key (insert item (set (heap @ [item])))" by simp
  from siftdown_loop_returns [OF _ this, of "length heap" 0]
  show ?thesis by (simp add: heappush_def siftdown_def)
qed

lemma heappop_returns:
  assumes ne: "heap \<noteq> []" and inj: "inj_on key (set heap)"
  shows "\<exists>it h. heappop heap = Inr (it, h)"
proof (cases "butlast heap = []")
  case True
  with ne have "heappop heap = Inr (last heap, butlast heap)"
    by (simp add: heappop_def Let_def)
  then show ?thesis by blast
next
  case False
  let ?g = "(butlast heap)[0 := last heap]"
  from False have len: "0 < length ?g" by (simp del: length_butlast)
  have sub: "set ?g \<subseteq> set heap"
    using set_update_subset_insert [of "butlast heap" 0 "last heap"] ne
    by (auto dest: in_set_butlastD)
  with inj have injg: "inj_on key (set ?g)" by (rule inj_on_subset)
  from siftup_loop_returns [OF refl injg, of 0] obtain h' q where
    loop: "siftup_loop ?g (length ?g) 0 = Inr (h', q)" and sub': "set h' \<subseteq> set ?g"
    by blast
  from siftup_loop_mset [OF loop refl len, of "last heap"] length_siftup_loop [OF loop]
  have q: "q < length h'" by simp
  have "set (h'[q := last heap]) \<subseteq> insert (last heap) (set h')"
    by (rule set_update_subset_insert)
  moreover from ne have "last heap \<in> set heap" by simp
  ultimately have "insert (last heap) (set (h'[q := last heap])) \<subseteq> set heap"
    using sub' sub by blast
  with inj have "inj_on key (insert (last heap) (set (h'[q := last heap])))"
    by (rule inj_on_subset)
  from siftdown_loop_returns [OF _ this, of q 0] q
  obtain h where "siftdown_loop (h'[q := last heap]) 0 (last heap) q = Inr h" by auto
  with loop q len ne False
  have "heappop heap = Inr (butlast heap ! 0, h)"
    by (simp add: heappop_def siftup_def siftdown_def Let_def del: length_butlast)
  then show ?thesis by blast
qed

lemma distinct_ts_inj_key:
  assumes d: "distinct (map (\<lambda>it. timestamp (snd (snd it))) h)"
    and ts: "\<forall>it \<in> set h. fst (snd it) = timestamp (snd (snd it))"
  shows "inj_on key (set h)"
proof (rule inj_onI)
  fix x y assume xy: "x \<in> set h" "y \<in> set h" "key x = key y"
  then have "fst (snd x) = fst (snd y)" by (simp add: key_def)
  with ts xy have "timestamp (snd (snd x)) = timestamp (snd (snd y))" by simp
  moreover from d have "inj_on (\<lambda>it. timestamp (snd (snd it))) (set h)"
    by (simp add: distinct_map)
  ultimately show "x = y" using xy by (simp add: inj_on_def)
qed

lemma heap_root_least_set:
  assumes "is_heap h" and "x \<in> set h"
  shows "key (h ! 0) \<le> key x"
proof -
  from assms(2) obtain i where "i < length h" "x = h ! i"
    by (auto simp: in_set_conv_nth)
  with heap_root_least [OF assms(1)] show ?thesis by simp
qed

lemma root_ask:
  assumes heap: "is_heap h" and ne: "h \<noteq> []"
    and items: "\<forall>it \<in> set h. it = ask_item (snd (snd it))"
  shows "snd (snd (h ! 0)) \<in> resting h"
    and "fst (h ! 0) = entry_price (snd (snd (h ! 0)))"
    and "x \<in> resting h \<Longrightarrow> entry_price (snd (snd (h ! 0))) \<le> entry_price x"
    and "x \<in> resting h \<Longrightarrow> entry_price x = entry_price (snd (snd (h ! 0))) \<Longrightarrow>
           timestamp (snd (snd (h ! 0))) \<le> timestamp x"
proof -
  let ?e = "snd (snd (h ! 0))"
  from ne have root: "h ! 0 \<in> set h" by simp
  then show "?e \<in> resting h" by (simp add: resting_def)
  from root items have r: "h ! 0 = ask_item ?e" by blast
  then show "fst (h ! 0) = entry_price ?e" by (metis ask_item_def fst_conv)
  have le: "key (ask_item ?e) \<le> key (ask_item x)" if "x \<in> resting h" for x
  proof -
    from that obtain it where "it \<in> set h" "x = snd (snd it)"
      by (auto simp: resting_def)
    with items have "ask_item x \<in> set h" by auto
    from heap_root_least_set [OF heap this] r show ?thesis by simp
  qed
  show "x \<in> resting h \<Longrightarrow> entry_price ?e \<le> entry_price x"
    using le [of x] by (auto simp: key_def ask_item_def less_eq_prod_def)
  show "x \<in> resting h \<Longrightarrow> entry_price x = entry_price ?e \<Longrightarrow> timestamp ?e \<le> timestamp x"
    using le [of x] by (auto simp: key_def ask_item_def less_eq_prod_def)
qed

lemma root_bid:
  assumes heap: "is_heap h" and ne: "h \<noteq> []"
    and items: "\<forall>it \<in> set h. it = bid_item (snd (snd it))"
  shows "snd (snd (h ! 0)) \<in> resting h"
    and "- fst (h ! 0) = entry_price (snd (snd (h ! 0)))"
    and "x \<in> resting h \<Longrightarrow> entry_price x \<le> entry_price (snd (snd (h ! 0)))"
    and "x \<in> resting h \<Longrightarrow> entry_price x = entry_price (snd (snd (h ! 0))) \<Longrightarrow>
           timestamp (snd (snd (h ! 0))) \<le> timestamp x"
proof -
  let ?e = "snd (snd (h ! 0))"
  from ne have root: "h ! 0 \<in> set h" by simp
  then show "?e \<in> resting h" by (simp add: resting_def)
  from root items have r: "h ! 0 = bid_item ?e" by blast
  then show "- fst (h ! 0) = entry_price ?e" by (metis bid_item_def fst_conv minus_minus)
  have le: "key (bid_item ?e) \<le> key (bid_item x)" if "x \<in> resting h" for x
  proof -
    from that obtain it where "it \<in> set h" "x = snd (snd it)"
      by (auto simp: resting_def)
    with items have "bid_item x \<in> set h" by auto
    from heap_root_least_set [OF heap this] r show ?thesis by simp
  qed
  show "x \<in> resting h \<Longrightarrow> entry_price x \<le> entry_price ?e"
    using le [of x] by (auto simp: key_def bid_item_def less_eq_prod_def)
  show "x \<in> resting h \<Longrightarrow> entry_price x = entry_price ?e \<Longrightarrow> timestamp ?e \<le> timestamp x"
    using le [of x] by (auto simp: key_def bid_item_def less_eq_prod_def)
qed

lemma finite_resting [simp]: "finite (resting h)"
  by (simp add: resting_def)

text \<open>
  C8. After any sequence of \<open>add_limit\<close>, \<open>reinsert\<close> and pop calls that runs without an
  exception from the empty book: on an empty side \<open>best_ask\<close> / \<open>best_bid\<close> return
  \<open>None\<close>; on a non-empty ask side \<open>best_ask\<close> is the minimum price among the resting
  asks, \<open>peek_best_ask\<close> returns a resting entry at that price whose arrival sequence
  number is the smallest among the entries at that price, and \<open>pop_best_ask\<close>, when it
  returns, returns that same entry. It does not raise \<open>IndexError\<close> there, and it does
  return when the sequence numbers on the side are pairwise different (Python raises
  \<open>TypeError\<close> only when it has to compare two different entries of equal price and
  sequence number, which a forged \<open>reinsert\<close> can create). The bid side is symmetric
  with the maximum price.
\<close>

theorem best_price_time_priority:
  assumes run: "run_ops OrderBook_init ops = Inr b"
  shows "(asks b = [] \<longrightarrow> best_ask b = None)
    \<and> (bids b = [] \<longrightarrow> best_bid b = None)
    \<and> (asks b \<noteq> [] \<longrightarrow>
         (\<exists>e. peek_best_ask b = Some e \<and> e \<in> resting (asks b)
            \<and> best_ask b = Some (entry_price e)
            \<and> entry_price e = Min (entry_price ` resting (asks b))
            \<and> timestamp e = Min (timestamp ` {x \<in> resting (asks b). entry_price x = entry_price e})
            \<and> (\<forall>e' b'. pop_best_ask b = Inr (e', b') \<longrightarrow> e' = e)
            \<and> pop_best_ask b \<noteq> Inl IndexError
            \<and> (distinct (map (\<lambda>it. timestamp (snd (snd it))) (asks b)) \<longrightarrow>
                  (\<exists>b'. pop_best_ask b = Inr (e, b')))))
    \<and> (bids b \<noteq> [] \<longrightarrow>
         (\<exists>e. peek_best_bid b = Some e \<and> e \<in> resting (bids b)
            \<and> best_bid b = Some (entry_price e)
            \<and> entry_price e = Max (entry_price ` resting (bids b))
            \<and> timestamp e = Min (timestamp ` {x \<in> resting (bids b). entry_price x = entry_price e})
            \<and> (\<forall>e' b'. pop_best_bid b = Inr (e', b') \<longrightarrow> e' = e)
            \<and> pop_best_bid b \<noteq> Inl IndexError
            \<and> (distinct (map (\<lambda>it. timestamp (snd (snd it))) (bids b)) \<longrightarrow>
                  (\<exists>b'. pop_best_bid b = Inr (e, b')))))"
proof -
  from book_inv_run_ops [OF book_inv_init run] have inv: "book_inv b" .
  have empty: "asks b = [] \<longrightarrow> best_ask b = None" "bids b = [] \<longrightarrow> best_bid b = None"
    by (simp_all add: best_ask_def best_bid_def)
  have ask: "\<exists>e. peek_best_ask b = Some e \<and> e \<in> resting (asks b)
            \<and> best_ask b = Some (entry_price e)
            \<and> entry_price e = Min (entry_price ` resting (asks b))
            \<and> timestamp e = Min (timestamp ` {x \<in> resting (asks b). entry_price x = entry_price e})
            \<and> (\<forall>e' b'. pop_best_ask b = Inr (e', b') \<longrightarrow> e' = e)
            \<and> pop_best_ask b \<noteq> Inl IndexError
            \<and> (distinct (map (\<lambda>it. timestamp (snd (snd it))) (asks b)) \<longrightarrow>
                  (\<exists>b'. pop_best_ask b = Inr (e, b')))"
    if ne: "asks b \<noteq> []"
  proof -
    let ?h = "asks b"
    let ?e = "snd (snd (?h ! 0))"
    from inv have heap: "is_heap ?h" and items: "\<forall>it \<in> set ?h. it = ask_item (snd (snd it))"
      by (simp_all add: book_inv_def)
    note r = root_ask [OF heap ne items]
    have 1: "peek_best_ask b = Some ?e" "best_ask b = Some (entry_price ?e)"
      using ne r(2) by (simp_all add: peek_best_ask_def best_ask_def)
    have 2: "Min (entry_price ` resting ?h) = entry_price ?e"
      using r(1) r(3) by (intro Min_eqI) auto
    have 3: "Min (timestamp ` {x \<in> resting ?h. entry_price x = entry_price ?e}) = timestamp ?e"
      using r(1) r(4) by (intro Min_eqI) auto
    have 4: "e' = ?e" if "pop_best_ask b = Inr (e', b')" for e' b'
      using that heappop_returns_root [of ?h]
      by (auto elim!: pop_best_ask_cases)
    have 5: "pop_best_ask b \<noteq> Inl IndexError"
      using ne heappop_error [of ?h] by (auto simp: pop_best_ask_def split: sum.splits)
    have 6: "\<exists>b'. pop_best_ask b = Inr (?e, b')"
      if d: "distinct (map (\<lambda>it. timestamp (snd (snd it))) ?h)"
    proof -
      from items have "\<forall>it \<in> set ?h. fst (snd it) = timestamp (snd (snd it))"
        by (metis ask_item_def fst_conv snd_conv)
      from heappop_returns [OF ne distinct_ts_inj_key [OF d this]]
      obtain it h' where pop: "heappop ?h = Inr (it, h')" by blast
      from heappop_returns_root [OF pop] pop
      have "pop_best_ask b = Inr (?e, b\<lparr>asks := h'\<rparr>)"
        by (simp add: pop_best_ask_def split: prod.splits)
      then show ?thesis by blast
    qed
    show ?thesis
      by (intro exI [of _ ?e] conjI allI impI 1 2 [symmetric] 3 [symmetric] 5 r(1))
         (erule 4, erule 6)
  qed
  have bid: "\<exists>e. peek_best_bid b = Some e \<and> e \<in> resting (bids b)
            \<and> best_bid b = Some (entry_price e)
            \<and> entry_price e = Max (entry_price ` resting (bids b))
            \<and> timestamp e = Min (timestamp ` {x \<in> resting (bids b). entry_price x = entry_price e})
            \<and> (\<forall>e' b'. pop_best_bid b = Inr (e', b') \<longrightarrow> e' = e)
            \<and> pop_best_bid b \<noteq> Inl IndexError
            \<and> (distinct (map (\<lambda>it. timestamp (snd (snd it))) (bids b)) \<longrightarrow>
                  (\<exists>b'. pop_best_bid b = Inr (e, b')))"
    if ne: "bids b \<noteq> []"
  proof -
    let ?h = "bids b"
    let ?e = "snd (snd (?h ! 0))"
    from inv have heap: "is_heap ?h" and items: "\<forall>it \<in> set ?h. it = bid_item (snd (snd it))"
      by (simp_all add: book_inv_def)
    note r = root_bid [OF heap ne items]
    have 1: "peek_best_bid b = Some ?e" "best_bid b = Some (entry_price ?e)"
      using ne r(2) by (simp_all add: peek_best_bid_def best_bid_def)
    have 2: "Max (entry_price ` resting ?h) = entry_price ?e"
      using r(1) r(3) by (intro Max_eqI) auto
    have 3: "Min (timestamp ` {x \<in> resting ?h. entry_price x = entry_price ?e}) = timestamp ?e"
      using r(1) r(4) by (intro Min_eqI) auto
    have 4: "e' = ?e" if "pop_best_bid b = Inr (e', b')" for e' b'
      using that heappop_returns_root [of ?h]
      by (auto elim!: pop_best_bid_cases)
    have 5: "pop_best_bid b \<noteq> Inl IndexError"
      using ne heappop_error [of ?h] by (auto simp: pop_best_bid_def split: sum.splits)
    have 6: "\<exists>b'. pop_best_bid b = Inr (?e, b')"
      if d: "distinct (map (\<lambda>it. timestamp (snd (snd it))) ?h)"
    proof -
      from items have "\<forall>it \<in> set ?h. fst (snd it) = timestamp (snd (snd it))"
        by (metis bid_item_def fst_conv snd_conv)
      from heappop_returns [OF ne distinct_ts_inj_key [OF d this]]
      obtain it h' where pop: "heappop ?h = Inr (it, h')" by blast
      from heappop_returns_root [OF pop] pop
      have "pop_best_bid b = Inr (?e, b\<lparr>bids := h'\<rparr>)"
        by (simp add: pop_best_bid_def split: prod.splits)
      then show ?thesis by blast
    qed
    show ?thesis
      by (intro exI [of _ ?e] conjI allI impI 1 2 [symmetric] 3 [symmetric] 5 r(1))
         (erule 4, erule 6)
  qed
  from empty ask bid show ?thesis by blast
qed

lemma example_ops_run: "run_ops OrderBook_init example_ops = Inr example_book"
  by code_simp

theorem best_price_time_priority_witness:
  "run_ops OrderBook_init example_ops = Inr example_book
   \<and> asks example_book \<noteq> [] \<and> bids example_book \<noteq> []
   \<and> (\<exists>e. peek_best_ask example_book = Some e \<and> timestamp e = 2 \<and> remaining e = 1
          \<and> best_ask example_book = Some 10
          \<and> entry_price e = Min (entry_price ` resting (asks example_book))
          \<and> timestamp e
              = Min (timestamp ` {x \<in> resting (asks example_book). entry_price x = entry_price e}))
   \<and> (\<exists>e. peek_best_bid example_book = Some e \<and> timestamp e = 5 \<and> remaining e = 2
          \<and> best_bid example_book = Some 9
          \<and> entry_price e = Max (entry_price ` resting (bids example_book))
          \<and> timestamp e
              = Min (timestamp ` {x \<in> resting (bids example_book). entry_price x = entry_price e}))"
proof -
  note run = example_ops_run
  have ne: "asks example_book \<noteq> []" "bids example_book \<noteq> []"
    by (simp_all add: example_book_def)
  note th = best_price_time_priority [OF run]
  from th ne(1) obtain ea where ea: "peek_best_ask example_book = Some ea"
      "best_ask example_book = Some (entry_price ea)"
      "entry_price ea = Min (entry_price ` resting (asks example_book))"
      "timestamp ea
         = Min (timestamp ` {x \<in> resting (asks example_book). entry_price x = entry_price ea})"
    by blast
  from th ne(2) obtain eb where eb: "peek_best_bid example_book = Some eb"
      "best_bid example_book = Some (entry_price eb)"
      "entry_price eb = Max (entry_price ` resting (bids example_book))"
      "timestamp eb
         = Min (timestamp ` {x \<in> resting (bids example_book). entry_price x = entry_price eb})"
    by blast
  from ea(1) have a: "timestamp ea = 2" "remaining ea = 1" "entry_price ea = 10"
    by (auto simp: peek_best_ask_def example_book_def)
  from eb(1) have b: "timestamp eb = 5" "remaining eb = 2" "entry_price eb = 9"
    by (auto simp: peek_best_bid_def example_book_def)
  from ea a have A: "\<exists>e. peek_best_ask example_book = Some e \<and> timestamp e = 2 \<and> remaining e = 1
          \<and> best_ask example_book = Some 10
          \<and> entry_price e = Min (entry_price ` resting (asks example_book))
          \<and> timestamp e
              = Min (timestamp ` {x \<in> resting (asks example_book). entry_price x = entry_price e})"
    by (intro exI [of _ ea]) simp
  from eb b have B: "\<exists>e. peek_best_bid example_book = Some e \<and> timestamp e = 5 \<and> remaining e = 2
          \<and> best_bid example_book = Some 9
          \<and> entry_price e = Max (entry_price ` resting (bids example_book))
          \<and> timestamp e
              = Min (timestamp ` {x \<in> resting (bids example_book). entry_price x = entry_price e})"
    by (intro exI [of _ eb]) simp
  from run ne A B show ?thesis by (intro conjI)
qed

section \<open>Invariants of the book under the matching engine\<close>

lemma resting_mset_eq:
  "mset h = add_mset x (mset g) \<Longrightarrow> resting h = insert (snd (snd x)) (resting g)"
  by (simp add: resting_def set_mset_eq)

lemma sides_inv_init: "sides_inv OrderBook_init"
  by (simp add: sides_inv_def OrderBook_init_def resting_def)

lemma sides_inv_push_bid:
  assumes "sides_inv b" "heappush (bids b) (bid_item e) = Inr h" "direction (order e) = 1"
    and "bids b' = h" "asks b' = asks b"
  shows "sides_inv b'"
  using assms resting_mset_eq [OF heappush_mset [OF assms(2)]]
  by (auto simp: sides_inv_def bid_item_def)

lemma sides_inv_push_ask:
  assumes "sides_inv b" "heappush (asks b) (ask_item e) = Inr h" "direction (order e) \<noteq> 1"
    and "asks b' = h" "bids b' = bids b"
  shows "sides_inv b'"
  using assms resting_mset_eq [OF heappush_mset [OF assms(2)]]
  by (auto simp: sides_inv_def ask_item_def)

lemma heappop_mset: "heappop heap = Inr (it, h) \<Longrightarrow> mset heap = add_mset it (mset h)"
proof -
  assume pop: "heappop heap = Inr (it, h)"
  then have ne: "heap \<noteq> []"
    by (auto simp: heappop_def)
  show ?thesis
  proof (cases "butlast heap = []")
    case True
    with pop ne have "h = []" "it = last heap"
      by (simp_all add: heappop_def Let_def)
    moreover from True ne have "heap = [last heap]"
      by (metis append_Nil append_butlast_last_id)
    ultimately show ?thesis by (metis mset.simps(1) mset.simps(2))
  next
    case False
    with pop ne obtain up: "siftup ((butlast heap)[0 := last heap]) 0 = Inr h"
      and it: "it = butlast heap ! 0"
      by (auto simp: heappop_def Let_def split: sum.splits)
    let ?g = "(butlast heap)[0 := last heap]"
    from False have len: "0 < length (butlast heap)"
      by (simp del: length_butlast)
    from up len obtain h' q where loop: "siftup_loop ?g (length ?g) 0 = Inr (h', q)"
      and down: "siftdown (h'[q := last heap]) 0 q = Inr h"
      by (auto simp: siftup_def Let_def simp del: length_butlast split: sum.splits)
    from siftup_loop_mset [OF loop refl, of "last heap"] len
    have q: "q < length ?g" and m: "mset (h'[q := last heap]) = mset ?g"
      by (simp_all del: length_butlast)
    from length_siftup_loop [OF loop] q have q': "q < length h'" by simp
    with down have "siftdown_loop (h'[q := last heap]) 0 (last heap) q = Inr h"
      by (simp add: siftdown_def)
    from siftdown_loop_mset [OF this] q' m have h: "mset h = mset ?g"
      by simp
    from len have "mset ?g = add_mset (last heap) (mset (butlast heap) - {#butlast heap ! 0#})"
      by (rule mset_update)
    moreover from len have "butlast heap ! 0 \<in># mset (butlast heap)"
      by (simp del: length_butlast)
    moreover have "mset heap = add_mset (last heap) (mset (butlast heap))"
      using ne by (metis append_butlast_last_id mset.simps(1) mset.simps(2) mset_append union_mset_add_mset_right add.right_neutral)
    ultimately show ?thesis
      using h it by simp
  qed
qed

lemma sides_inv_pop_bid:
  assumes "sides_inv b" "heappop (bids b) = Inr (it, h)" "bids b' = h" "asks b' = asks b"
  shows "sides_inv b'"
  using assms resting_mset_eq [OF heappop_mset [OF assms(2)]]
  by (auto simp: sides_inv_def)

lemma sides_inv_pop_ask:
  assumes "sides_inv b" "heappop (asks b) = Inr (it, h)" "asks b' = h" "bids b' = bids b"
  shows "sides_inv b'"
  using assms resting_mset_eq [OF heappop_mset [OF assms(2)]]
  by (auto simp: sides_inv_def)

lemma sides_inv_add_limit:
  assumes "sides_inv b" "add_limit b ord = Inr b'"
  shows "sides_inv b'"
  using assms(2)
proof (cases rule: add_limit_cases)
  case rejected
  with assms(1) show ?thesis by simp
next
  case (bid h)
  from sides_inv_push_bid [OF assms(1) bid(4), of b'] bid(3,5) show ?thesis by simp
next
  case (ask h)
  from sides_inv_push_ask [OF assms(1) ask(4), of b'] ask(3,5) show ?thesis by simp
qed

lemma sides_inv_reinsert:
  assumes "sides_inv b" "reinsert b e = Inr b'"
  shows "sides_inv b'"
  using assms(2)
proof (cases rule: reinsert_cases)
  case rejected
  with assms(1) show ?thesis by simp
next
  case (bid h)
  from sides_inv_push_bid [OF assms(1) bid(3), of b'] bid(2,4) show ?thesis by simp
next
  case (ask h)
  from sides_inv_push_ask [OF assms(1) ask(3), of b'] ask(2,4) show ?thesis by simp
qed

lemma execute_trade_cases:
  assumes "execute_trade ord eng rem be mp = Inr (eng1, rem1, trade)"
  obtains it h bk where
    "heappop (opposite_side ord (book eng)) = Inr (it, h)"
    "bk = (if direction ord = 1 then (book eng)\<lparr>asks := h\<rparr> else (book eng)\<lparr>bids := h\<rparr>)"
    "rem1 = rem - min rem (remaining be)"
    "if remaining (snd (snd it)) - min rem (remaining be) > 0
     then reinsert bk ((snd (snd it))\<lparr>remaining := remaining (snd (snd it)) - min rem (remaining be)\<rparr>)
            = Inr (book eng1)
     else book eng1 = bk"
    "pl_rule eng1 = pl_rule eng" "last_close_price eng1 = last_close_price eng"
    "trade_price trade = mp" "trade_quantity trade = min rem (remaining be)"
proof (cases "direction ord = 1")
  case True
  with assms obtain it h where pop: "heappop (asks (book eng)) = Inr (it, h)"
    by (auto simp: execute_trade_def Let_def pop_best_ask_def split: sum.splits prod.splits)
  obtain p t e where it: "it = (p, t, e)" by (cases it)
  show ?thesis
  proof (rule that [of it h "(book eng)\<lparr>asks := h\<rparr>"])
    show "heappop (opposite_side ord (book eng)) = Inr (it, h)"
      using pop True by (simp add: opposite_side_def)
  qed (use assms True pop it in
      \<open>auto simp: execute_trade_def Let_def pop_best_ask_def split: sum.splits if_splits\<close>)
next
  case False
  with assms obtain it h where pop: "heappop (bids (book eng)) = Inr (it, h)"
    by (auto simp: execute_trade_def Let_def pop_best_bid_def split: sum.splits prod.splits)
  obtain p t e where it: "it = (p, t, e)" by (cases it)
  show ?thesis
  proof (rule that [of it h "(book eng)\<lparr>bids := h\<rparr>"])
    show "heappop (opposite_side ord (book eng)) = Inr (it, h)"
      using pop False by (simp add: opposite_side_def)
  qed (use assms False pop it in
      \<open>auto simp: execute_trade_def Let_def pop_best_bid_def split: sum.splits if_splits\<close>)
qed

lemma counter_reinsert: "reinsert b e = Inr b' \<Longrightarrow> counter b' = counter b"
  by (erule reinsert_cases) simp_all

lemma execute_trade_inv:
  assumes inv: "book_inv (book eng)" "sides_inv (book eng)"
    and ex: "execute_trade ord eng rem be mp = Inr (eng1, rem1, trade)"
  shows "book_inv (book eng1) \<and> sides_inv (book eng1) \<and> counter (book eng1) = counter (book eng)"
  using ex
proof (cases rule: execute_trade_cases)
  case (1 it h bk)
  have bk: "book_inv bk \<and> sides_inv bk \<and> counter bk = counter (book eng)"
  proof (cases "direction ord = 1")
    case True
    with 1(1) have pop: "heappop (asks (book eng)) = Inr (it, h)"
      by (simp add: opposite_side_def)
    from book_inv_pop_ask [OF inv(1) pop] sides_inv_pop_ask [OF inv(2) pop, of bk] 1(2) True
    show ?thesis by simp
  next
    case False
    with 1(1) have pop: "heappop (bids (book eng)) = Inr (it, h)"
      by (simp add: opposite_side_def)
    from book_inv_pop_bid [OF inv(1) pop] sides_inv_pop_bid [OF inv(2) pop, of bk] 1(2) False
    show ?thesis by simp
  qed
  show ?thesis
  proof (cases "remaining (snd (snd it)) - min rem (remaining be) > 0")
    case True
    with 1(4) have re: "reinsert bk ((snd (snd it))\<lparr>remaining :=
        remaining (snd (snd it)) - min rem (remaining be)\<rparr>) = Inr (book eng1)"
      by simp
    from book_inv_reinsert [OF _ re] sides_inv_reinsert [OF _ re] counter_reinsert [OF re] bk
    show ?thesis by simp
  next
    case False
    with 1(4) bk show ?thesis by simp
  qed
qed

lemma matching_loop_inv:
  "matching_loop ord eng rem ts = Inr (eng1, rem1, ts1) \<Longrightarrow>
     book_inv (book eng) \<Longrightarrow> sides_inv (book eng) \<Longrightarrow>
     book_inv (book eng1) \<and> sides_inv (book eng1) \<and> counter (book eng1) = counter (book eng)
     \<and> pl_rule eng1 = pl_rule eng \<and> last_close_price eng1 = last_close_price eng"
proof (induction ord eng rem ts rule: matching_loop.induct)
  case (1 ord eng rem trades)
  show ?case
  proof (cases "rem > 0")
    case False
    with "1.prems" show ?thesis
      by (simp add: matching_loop.simps [of ord eng rem trades])
  next
    case True
    show ?thesis
    proof (cases "next_match ord eng")
      case None
      with True "1.prems" show ?thesis
        by (simp add: matching_loop.simps [of ord eng rem trades])
    next
      case (Some m)
      obtain be mp where m: "m = (be, mp)" by (cases m)
      from "1.prems"(1) True Some m obtain eng2 rem2 trade where
        ex: "execute_trade ord eng rem be mp = Inr (eng2, rem2, trade)"
        and rec: "matching_loop ord eng2 rem2 (trades @ [trade]) = Inr (eng1, rem1, ts1)"
        by (auto simp: matching_loop.simps [of ord eng rem trades] split: sum.splits)
      note e = execute_trade_inv [OF "1.prems"(2,3) ex]
      from ex have keep: "pl_rule eng2 = pl_rule eng" "last_close_price eng2 = last_close_price eng"
        by (auto elim: execute_trade_cases)
      from "1.IH" [OF True Some m [symmetric] ex refl refl rec] e keep
      show ?thesis by simp
    qed
  qed
qed

lemma process_order_inv:
  assumes "process_order eng ord = Inr (trades, eng')"
    and inv: "book_inv (book eng)" "sides_inv (book eng)"
  shows "book_inv (book eng') \<and> sides_inv (book eng')"
proof (cases "\<exists>eng1 rem. matching_loop ord eng (quantity ord) [] = Inr (eng1, rem, trades)
    \<and> (eng' = eng1 \<or> (\<exists>bk. add_limit (book eng1) (ord\<lparr>quantity := rem\<rparr>) = Inr bk
          \<and> eng' = eng1\<lparr>book := bk\<rparr>))")
  case True
  then obtain eng1 rem where loop: "matching_loop ord eng (quantity ord) [] = Inr (eng1, rem, trades)"
    and fin: "eng' = eng1 \<or> (\<exists>bk. add_limit (book eng1) (ord\<lparr>quantity := rem\<rparr>) = Inr bk
          \<and> eng' = eng1\<lparr>book := bk\<rparr>)"
    by blast
  from matching_loop_inv [OF loop inv] have i1: "book_inv (book eng1)" "sides_inv (book eng1)"
    by simp_all
  from fin show ?thesis
  proof
    assume "eng' = eng1"
    with i1 show ?thesis by simp
  next
    assume "\<exists>bk. add_limit (book eng1) (ord\<lparr>quantity := rem\<rparr>) = Inr bk \<and> eng' = eng1\<lparr>book := bk\<rparr>"
    then obtain bk where "add_limit (book eng1) (ord\<lparr>quantity := rem\<rparr>) = Inr bk"
      "eng' = eng1\<lparr>book := bk\<rparr>" by blast
    with book_inv_add_limit [OF i1(1)] sides_inv_add_limit [OF i1(2)] show ?thesis
      by simp
  qed
next
  case False
  with assms(1) have "eng' = eng"
    by (auto simp: process_order_def split: if_splits sum.splits prod.splits)
  with inv show ?thesis by simp
qed

lemma reset_inv:
  "book_inv (book (set_reference_price_and_reset_book eng r))
   \<and> sides_inv (book (set_reference_price_and_reset_book eng r))"
  by (simp add: set_reference_price_and_reset_book_def clear_def book_inv_def sides_inv_def
      resting_def)

lemma run_engine_inv:
  "run_engine eng ops = Inr eng' \<Longrightarrow> book_inv (book eng) \<Longrightarrow> sides_inv (book eng) \<Longrightarrow>
     book_inv (book eng') \<and> sides_inv (book eng')"
proof (induction eng ops rule: run_engine.induct)
  case (1 eng)
  then show ?case by simp
next
  case (2 eng ord ops)
  from "2.prems"(1) obtain trades eng1 where
    po: "process_order eng ord = Inr (trades, eng1)" and rest: "run_engine eng1 ops = Inr eng'"
    by (auto split: sum.splits)
  from process_order_inv [OF po "2.prems"(2,3)] "2.IH" [OF po refl rest] show ?case
    by simp
next
  case (3 eng last_close ops)
  from "3.prems"(1) "3.IH" reset_inv [of eng last_close] show ?case by simp
qed

lemma engine_init_inv:
  "book_inv (book (CDAEngine_init p pl tt)) \<and> sides_inv (book (CDAEngine_init p pl tt))"
  by (simp add: CDAEngine_init_def book_inv_init sides_inv_init)

lemma ts_inv_init: "ts_inv OrderBook_init"
  by (simp add: ts_inv_def OrderBook_init_def)

lemma distinct_map_mset:
  assumes "mset h = add_mset x (mset g)"
  shows "distinct (map f h) \<longleftrightarrow> f x \<notin> f ` set g \<and> distinct (map f g)"
proof -
  from assms have "mset (map f h) = mset (map f (x # g))"
    by simp
  then have "distinct (map f h) = distinct (map f (x # g))"
    by (rule mset_eq_imp_distinct_iff)
  then show ?thesis by simp
qed

lemma ts_inv_pop_ask:
  assumes "ts_inv b" "heappop (asks b) = Inr (it, h)" "asks b' = h" "bids b' = bids b"
    "counter b' = counter b"
  shows "ts_inv b' \<and> fst (snd it) \<notin> (\<lambda>it. fst (snd it)) ` set h \<and> fst (snd it) \<le> counter b"
  using assms distinct_map_mset [OF heappop_mset [OF assms(2)], of "\<lambda>it. fst (snd it)"]
    set_mset_eq [OF heappop_mset [OF assms(2)]]
  by (auto simp: ts_inv_def)

lemma ts_inv_pop_bid:
  assumes "ts_inv b" "heappop (bids b) = Inr (it, h)" "bids b' = h" "asks b' = asks b"
    "counter b' = counter b"
  shows "ts_inv b' \<and> fst (snd it) \<notin> (\<lambda>it. fst (snd it)) ` set h \<and> fst (snd it) \<le> counter b"
  using assms distinct_map_mset [OF heappop_mset [OF assms(2)], of "\<lambda>it. fst (snd it)"]
    set_mset_eq [OF heappop_mset [OF assms(2)]]
  by (auto simp: ts_inv_def)

lemma ts_inv_push_ask:
  assumes inv: "ts_inv b" and push: "heappush (asks b) x = Inr h"
    and b': "asks b' = h" "bids b' = bids b"
    and fresh: "fst (snd x) \<notin> (\<lambda>it. fst (snd it)) ` set (asks b)"
    and le: "fst (snd x) \<le> counter b'" "counter b \<le> counter b'"
  shows "ts_inv b'"
proof -
  note m = heappush_mset [OF push]
  from inv have old: "distinct (map (\<lambda>it. fst (snd it)) (bids b))"
    "distinct (map (\<lambda>it. fst (snd it)) (asks b))"
    and bound: "\<And>it. it \<in> set (bids b) \<union> set (asks b) \<Longrightarrow> fst (snd it) \<le> counter b"
    by (simp_all add: ts_inv_def)
  from distinct_map_mset [OF m, of "\<lambda>it. fst (snd it)"] old fresh
  have d: "distinct (map (\<lambda>it. fst (snd it)) h)" by simp
  have "fst (snd it) \<le> counter b'" if "it \<in> set (bids b') \<union> set (asks b')" for it
  proof (cases "it = x")
    case True
    with le show ?thesis by simp
  next
    case False
    with that b' set_mset_eq [OF m] have "it \<in> set (bids b) \<union> set (asks b)" by auto
    from bound [OF this] le(2) show ?thesis by simp
  qed
  with d old b' show ?thesis by (simp add: ts_inv_def)
qed

lemma ts_inv_push_bid:
  assumes inv: "ts_inv b" and push: "heappush (bids b) x = Inr h"
    and b': "bids b' = h" "asks b' = asks b"
    and fresh: "fst (snd x) \<notin> (\<lambda>it. fst (snd it)) ` set (bids b)"
    and le: "fst (snd x) \<le> counter b'" "counter b \<le> counter b'"
  shows "ts_inv b'"
proof -
  note m = heappush_mset [OF push]
  from inv have old: "distinct (map (\<lambda>it. fst (snd it)) (bids b))"
    "distinct (map (\<lambda>it. fst (snd it)) (asks b))"
    and bound: "\<And>it. it \<in> set (bids b) \<union> set (asks b) \<Longrightarrow> fst (snd it) \<le> counter b"
    by (simp_all add: ts_inv_def)
  from distinct_map_mset [OF m, of "\<lambda>it. fst (snd it)"] old fresh
  have d: "distinct (map (\<lambda>it. fst (snd it)) h)" by simp
  have "fst (snd it) \<le> counter b'" if "it \<in> set (bids b') \<union> set (asks b')" for it
  proof (cases "it = x")
    case True
    with le show ?thesis by simp
  next
    case False
    with that b' set_mset_eq [OF m] have "it \<in> set (bids b) \<union> set (asks b)" by auto
    from bound [OF this] le(2) show ?thesis by simp
  qed
  with d old b' show ?thesis by (simp add: ts_inv_def)
qed

lemma ts_inv_bound:
  "ts_inv b \<Longrightarrow> it \<in> set (bids b) \<or> it \<in> set (asks b) \<Longrightarrow> fst (snd it) \<le> counter b"
  unfolding ts_inv_def by blast

lemma ts_inv_add_limit:
  assumes "ts_inv b" "add_limit b ord = Inr b'"
  shows "ts_inv b'"
  using assms(2)
proof (cases rule: add_limit_cases)
  case rejected
  with assms(1) show ?thesis by simp
next
  case (bid h)
  have "counter b + 1 \<notin> (\<lambda>it. fst (snd it)) ` set (bids b)"
  proof
    assume "counter b + 1 \<in> (\<lambda>it. fst (snd it)) ` set (bids b)"
    then obtain it where "it \<in> set (bids b)" "fst (snd it) = counter b + 1" by auto
    with ts_inv_bound [OF assms(1), of it] show False by simp
  qed
  with ts_inv_push_bid [OF assms(1) bid(4), of b'] bid(5) show ?thesis
    by (simp add: bid_item_def)
next
  case (ask h)
  have "counter b + 1 \<notin> (\<lambda>it. fst (snd it)) ` set (asks b)"
  proof
    assume "counter b + 1 \<in> (\<lambda>it. fst (snd it)) ` set (asks b)"
    then obtain it where "it \<in> set (asks b)" "fst (snd it) = counter b + 1" by auto
    with ts_inv_bound [OF assms(1), of it] show False by simp
  qed
  with ts_inv_push_ask [OF assms(1) ask(4), of b'] ask(5) show ?thesis
    by (simp add: ask_item_def)
qed

lemma book_inv_ask_item: "book_inv b \<Longrightarrow> it \<in> set (asks b) \<Longrightarrow> it = ask_item (snd (snd it))"
  by (simp add: book_inv_def)

lemma book_inv_bid_item: "book_inv b \<Longrightarrow> it \<in> set (bids b) \<Longrightarrow> it = bid_item (snd (snd it))"
  by (simp add: book_inv_def)

lemma heappop_root_in_set: "heappop heap = Inr (it, h) \<Longrightarrow> it \<in> set heap"
  using set_mset_eq [OF heappop_mset] by blast

lemma execute_trade_ts_inv:
  assumes inv: "book_inv (book eng)" "sides_inv (book eng)" "ts_inv (book eng)"
    and ex: "execute_trade ord eng rem be mp = Inr (eng1, rem1, trade)"
  shows "ts_inv (book eng1)"
  using ex
proof (cases rule: execute_trade_cases)
  case (1 it h bk)
  let ?e = "snd (snd it)"
  let ?e' = "?e\<lparr>remaining := remaining ?e - min rem (remaining be)\<rparr>"
  show ?thesis
  proof (cases "direction ord = 1")
    case True
    with 1(1) have pop: "heappop (asks (book eng)) = Inr (it, h)"
      by (simp add: opposite_side_def)
    from 1(2) True have bk: "asks bk = h" "bids bk = bids (book eng)"
      "counter bk = counter (book eng)" by simp_all
    note p = ts_inv_pop_ask [OF inv(3) pop bk]
    from heappop_root_in_set [OF pop] have mem: "it \<in> set (asks (book eng))" .
    from book_inv_ask_item [OF inv(1) mem] have it: "fst (snd it) = timestamp ?e"
      by (metis ask_item_def fst_conv snd_conv)
    from mem inv(2) have dir: "direction (order ?e) \<noteq> 1"
      by (auto simp: sides_inv_def resting_def)
    show ?thesis
    proof (cases "remaining ?e - min rem (remaining be) > 0")
      case False
      with 1(4) p show ?thesis by simp
    next
      case pos: True
      with 1(4) have re: "reinsert bk ?e' = Inr (book eng1)" by simp
      from re show ?thesis
      proof (cases rule: reinsert_cases)
        case rejected
        with p show ?thesis by simp
      next
        case (bid h2)
        with dir show ?thesis by simp
      next
        case (ask h2)
        from ts_inv_push_ask [OF conjunct1 [OF p] ask(3), of "book eng1"] ask(4) p it bk
        show ?thesis by (simp add: ask_item_def)
      qed
    qed
  next
    case False
    with 1(1) have pop: "heappop (bids (book eng)) = Inr (it, h)"
      by (simp add: opposite_side_def)
    from 1(2) False have bk: "bids bk = h" "asks bk = asks (book eng)"
      "counter bk = counter (book eng)" by simp_all
    note p = ts_inv_pop_bid [OF inv(3) pop bk]
    from heappop_root_in_set [OF pop] have mem: "it \<in> set (bids (book eng))" .
    from book_inv_bid_item [OF inv(1) mem] have it: "fst (snd it) = timestamp ?e"
      by (metis bid_item_def fst_conv snd_conv)
    from mem inv(2) have dir: "direction (order ?e) = 1"
      by (auto simp: sides_inv_def resting_def)
    show ?thesis
    proof (cases "remaining ?e - min rem (remaining be) > 0")
      case False
      with 1(4) p show ?thesis by simp
    next
      case pos: True
      with 1(4) have re: "reinsert bk ?e' = Inr (book eng1)" by simp
      from re show ?thesis
      proof (cases rule: reinsert_cases)
        case rejected
        with p show ?thesis by simp
      next
        case (ask h2)
        with dir show ?thesis by simp
      next
        case (bid h2)
        from ts_inv_push_bid [OF conjunct1 [OF p] bid(3), of "book eng1"] bid(4) p it bk
        show ?thesis by (simp add: bid_item_def)
      qed
    qed
  qed
qed

lemma matching_loop_ts_inv:
  "matching_loop ord eng rem ts = Inr (eng1, rem1, ts1) \<Longrightarrow>
     book_inv (book eng) \<Longrightarrow> sides_inv (book eng) \<Longrightarrow> ts_inv (book eng) \<Longrightarrow>
     ts_inv (book eng1)"
proof (induction ord eng rem ts rule: matching_loop.induct)
  case (1 ord eng rem trades)
  show ?case
  proof (cases "rem > 0")
    case False
    with "1.prems" show ?thesis
      by (simp add: matching_loop.simps [of ord eng rem trades])
  next
    case True
    show ?thesis
    proof (cases "next_match ord eng")
      case None
      with True "1.prems" show ?thesis
        by (simp add: matching_loop.simps [of ord eng rem trades])
    next
      case (Some m)
      obtain be mp where m: "m = (be, mp)" by (cases m)
      from "1.prems"(1) True Some m obtain eng2 rem2 trade where
        ex: "execute_trade ord eng rem be mp = Inr (eng2, rem2, trade)"
        and rec: "matching_loop ord eng2 rem2 (trades @ [trade]) = Inr (eng1, rem1, ts1)"
        by (auto simp: matching_loop.simps [of ord eng rem trades] split: sum.splits)
      note e = execute_trade_inv [OF "1.prems"(2,3) ex]
      note t = execute_trade_ts_inv [OF "1.prems"(2,3,4) ex]
      from "1.IH" [OF True Some m [symmetric] ex refl refl rec] e t
      show ?thesis by simp
    qed
  qed
qed

lemma process_order_ts_inv:
  assumes "process_order eng ord = Inr (trades, eng')"
    and inv: "book_inv (book eng)" "sides_inv (book eng)" "ts_inv (book eng)"
  shows "ts_inv (book eng')"
proof (cases "\<exists>eng1 rem. matching_loop ord eng (quantity ord) [] = Inr (eng1, rem, trades)
    \<and> (eng' = eng1 \<or> (\<exists>bk. add_limit (book eng1) (ord\<lparr>quantity := rem\<rparr>) = Inr bk
          \<and> eng' = eng1\<lparr>book := bk\<rparr>))")
  case True
  then obtain eng1 rem where loop: "matching_loop ord eng (quantity ord) [] = Inr (eng1, rem, trades)"
    and fin: "eng' = eng1 \<or> (\<exists>bk. add_limit (book eng1) (ord\<lparr>quantity := rem\<rparr>) = Inr bk
          \<and> eng' = eng1\<lparr>book := bk\<rparr>)"
    by blast
  from matching_loop_ts_inv [OF loop inv] have i1: "ts_inv (book eng1)" .
  from fin show ?thesis
  proof
    assume "eng' = eng1"
    with i1 show ?thesis by simp
  next
    assume "\<exists>bk. add_limit (book eng1) (ord\<lparr>quantity := rem\<rparr>) = Inr bk \<and> eng' = eng1\<lparr>book := bk\<rparr>"
    then obtain bk where "add_limit (book eng1) (ord\<lparr>quantity := rem\<rparr>) = Inr bk"
      "eng' = eng1\<lparr>book := bk\<rparr>" by blast
    with ts_inv_add_limit [OF i1] show ?thesis
      by simp
  qed
next
  case False
  with assms(1) have "eng' = eng"
    by (auto simp: process_order_def split: if_splits sum.splits prod.splits)
  with inv show ?thesis by simp
qed

lemma reset_ts_inv: "ts_inv (book (set_reference_price_and_reset_book eng r))"
  by (simp add: set_reference_price_and_reset_book_def clear_def ts_inv_def)

lemma run_engine_ts_inv:
  "run_engine eng ops = Inr eng' \<Longrightarrow> book_inv (book eng) \<Longrightarrow> sides_inv (book eng) \<Longrightarrow>
     ts_inv (book eng) \<Longrightarrow> ts_inv (book eng')"
proof (induction eng ops rule: run_engine.induct)
  case (1 eng)
  then show ?case by simp
next
  case (2 eng ord ops)
  from "2.prems"(1) obtain trades eng1 where
    po: "process_order eng ord = Inr (trades, eng1)" and rest: "run_engine eng1 ops = Inr eng'"
    by (auto split: sum.splits)
  from process_order_inv [OF po "2.prems"(2,3)] process_order_ts_inv [OF po "2.prems"(2,3,4)]
    "2.IH" [OF po refl rest] show ?case
    by simp
next
  case (3 eng last_close ops)
  from "3.prems"(1) "3.IH" reset_inv [of eng last_close] reset_ts_inv [of eng last_close]
  show ?case by simp
qed

lemma reachable_invs:
  assumes "run_engine (CDAEngine_init p pl tt) ops = Inr eng"
  shows "book_inv (book eng)" "sides_inv (book eng)" "ts_inv (book eng)"
proof -
  have i: "book_inv (book (CDAEngine_init p pl tt))" "sides_inv (book (CDAEngine_init p pl tt))"
    "ts_inv (book (CDAEngine_init p pl tt))"
    by (simp_all add: CDAEngine_init_def book_inv_init sides_inv_init ts_inv_init)
  from run_engine_inv [OF assms i(1,2)] run_engine_ts_inv [OF assms i]
  show "book_inv (book eng)" "sides_inv (book eng)" "ts_inv (book eng)" by simp_all
qed

lemma reinsert_root_stays:
  assumes heap: "is_heap g" and pop: "heappop g = Inr (it, h)"
    and push: "heappush h it' = Inr h2"
    and key: "key it' = key it"
    and fresh: "fst (snd it) \<notin> (\<lambda>it. fst (snd it)) ` set h"
  shows "h2 \<noteq> [] \<and> h2 ! 0 = it'"
proof -
  from heappop_heap [OF heap pop] have h: "is_heap h" "mset g = add_mset it (mset h)"
    by simp_all
  from heappush_heap [OF h(1) push] have h2: "is_heap h2" .
  from set_mset_eq [OF heappush_mset [OF push]] have set2: "set h2 = insert it' (set h)" .
  then have ne: "h2 \<noteq> []" by auto
  then have root: "h2 ! 0 \<in> set h2" by simp
  have "h2 ! 0 = it'"
  proof (rule ccontr)
    assume "h2 ! 0 \<noteq> it'"
    with root set2 have r: "h2 ! 0 \<in> set h" by auto
    with set_mset_eq [OF h(2)] have "h2 ! 0 \<in> set g" by simp
    from heap_root_least_set [OF heap this] heappop_returns_root [OF pop]
    have "key it \<le> key (h2 ! 0)" by simp
    moreover from heap_root_least_set [OF h2, of it'] set2 key
    have "key (h2 ! 0) \<le> key it" by simp
    ultimately have "key (h2 ! 0) = key it" by simp
    then have "fst (snd (h2 ! 0)) = fst (snd it)" by (simp add: key_def)
    with r fresh show False by (metis imageI)
  qed
  with ne show ?thesis ..
qed

lemma distinct_fst_snd_inj_key:
  assumes "distinct (map (\<lambda>it. fst (snd it)) h)"
  shows "inj_on key (set h)"
proof (rule inj_onI)
  fix x y assume xy: "x \<in> set h" "y \<in> set h" "key x = key y"
  then have "fst (snd x) = fst (snd y)" by (simp add: key_def)
  moreover from assms have "inj_on (\<lambda>it. fst (snd it)) (set h)"
    by (simp add: distinct_map)
  ultimately show "x = y" using xy by (simp add: inj_on_def)
qed

lemma inj_key_insert:
  assumes "inj_on key (set h)" and "fst (snd x) \<notin> (\<lambda>it. fst (snd it)) ` set h"
  shows "inj_on key (insert x (set h))"
proof (rule inj_onI)
  fix a b assume ab: "a \<in> insert x (set h)" "b \<in> insert x (set h)" "key a = key b"
  then have ts: "fst (snd a) = fst (snd b)" by (simp add: key_def)
  show "a = b"
  proof (cases "a = x \<or> b = x")
    case True
    with ab ts assms(2) show ?thesis by (metis imageI insertE)
  next
    case False
    with ab assms(1) show ?thesis by (simp add: inj_on_def)
  qed
qed

lemma add_limit_returns:
  assumes "ts_inv b"
  shows "\<exists>b'. add_limit b ord = Inr b'"
proof (cases "quantity ord \<le> 0 \<or> price ord \<le> 0")
  case True
  then show ?thesis by (auto simp: add_limit_def)
next
  case False
  let ?e = "\<lparr>entry_price = price ord, timestamp = counter b + 1, order = ord,
             remaining = quantity ord\<rparr>"
  have fresh: "counter b + 1 \<notin> (\<lambda>it. fst (snd it)) ` set h"
    if "h = bids b \<or> h = asks b" for h
  proof
    assume "counter b + 1 \<in> (\<lambda>it. fst (snd it)) ` set h"
    then obtain it where "it \<in> set h" "fst (snd it) = counter b + 1" by auto
    with ts_inv_bound [OF assms, of it] that show False by auto
  qed
  from assms have inj: "inj_on key (set (bids b))" "inj_on key (set (asks b))"
    by (simp_all add: ts_inv_def distinct_fst_snd_inj_key)
  show ?thesis
  proof (cases "direction ord = 1")
    case True
    from inj_key_insert [OF inj(1), of "bid_item ?e"] fresh [of "bids b"]
    have "inj_on key (insert (bid_item ?e) (set (bids b)))" by (simp add: bid_item_def)
    from heappush_returns [OF this] obtain h where "heappush (bids b) (bid_item ?e) = Inr h"
      by blast
    with False True show ?thesis
      by (simp add: add_limit_def next_ts_def bid_item_def)
  next
    case dir: False
    from inj_key_insert [OF inj(2), of "ask_item ?e"] fresh [of "asks b"]
    have "inj_on key (insert (ask_item ?e) (set (asks b)))" by (simp add: ask_item_def)
    from heappush_returns [OF this] obtain h where "heappush (asks b) (ask_item ?e) = Inr h"
      by blast
    with False dir show ?thesis
      by (simp add: add_limit_def next_ts_def ask_item_def)
  qed
qed

lemma execute_trade_returns:
  assumes inv: "book_inv (book eng)" "sides_inv (book eng)" "ts_inv (book eng)"
    and ne: "opposite_side ord (book eng) \<noteq> []"
  shows "\<exists>eng1 rem1 trade. execute_trade ord eng rem be mp = Inr (eng1, rem1, trade)"
proof -
  let ?q = "min rem (remaining be)"
  from inv(3) have inj: "inj_on key (set (bids (book eng)))" "inj_on key (set (asks (book eng)))"
    by (simp_all add: ts_inv_def distinct_fst_snd_inj_key)
  show ?thesis
  proof (cases "direction ord = 1")
    case True
    with ne have ne': "asks (book eng) \<noteq> []" by (simp add: opposite_side_def)
    from heappop_returns [OF ne' inj(2)] obtain it h where
      pop: "heappop (asks (book eng)) = Inr (it, h)" by blast
    obtain p t e where it: "it = (p, t, e)" by (cases it)
    let ?bk = "(book eng)\<lparr>asks := h\<rparr>"
    let ?e' = "e\<lparr>remaining := remaining e - ?q\<rparr>"
    have "\<exists>bk1. (if remaining ?e' > 0 then reinsert ?bk ?e' else Inr ?bk) = Inr bk1"
    proof (cases "remaining ?e' > 0")
      case False
      then show ?thesis by simp
    next
      case pos: True
      from heappop_root_in_set [OF pop] have mem: "it \<in> set (asks (book eng))" .
      from book_inv_ask_item [OF inv(1) mem] it have t: "t = timestamp e"
        by (simp add: ask_item_def)
      from mem inv(2) it have dir: "direction (order e) \<noteq> 1"
        by (force simp: sides_inv_def resting_def)
      from ts_inv_pop_ask [OF inv(3) pop, of ?bk] it t
      have fresh: "timestamp e \<notin> (\<lambda>it. fst (snd it)) ` set h" by simp
      from set_mset_eq [OF heappop_mset [OF pop]] have "set h \<subseteq> set (asks (book eng))" by auto
      with inj(2) have "inj_on key (set h)" by (rule inj_on_subset)
      from inj_key_insert [OF this, of "ask_item ?e'"] fresh
      have "inj_on key (insert (ask_item ?e') (set h))" by (simp add: ask_item_def)
      from heappush_returns [OF this] obtain h2 where "heappush h (ask_item ?e') = Inr h2"
        by blast
      with pos dir show ?thesis
        by (simp add: reinsert_def ask_item_def)
    qed
    then obtain bk1 where "(if remaining ?e' > 0 then reinsert ?bk ?e' else Inr ?bk) = Inr bk1"
      by blast
    with True pop it show ?thesis
      by (simp add: execute_trade_def Let_def pop_best_ask_def)
  next
    case False
    with ne have ne': "bids (book eng) \<noteq> []" by (simp add: opposite_side_def)
    from heappop_returns [OF ne' inj(1)] obtain it h where
      pop: "heappop (bids (book eng)) = Inr (it, h)" by blast
    obtain p t e where it: "it = (p, t, e)" by (cases it)
    let ?bk = "(book eng)\<lparr>bids := h\<rparr>"
    let ?e' = "e\<lparr>remaining := remaining e - ?q\<rparr>"
    have "\<exists>bk1. (if remaining ?e' > 0 then reinsert ?bk ?e' else Inr ?bk) = Inr bk1"
    proof (cases "remaining ?e' > 0")
      case False
      then show ?thesis by simp
    next
      case pos: True
      from heappop_root_in_set [OF pop] have mem: "it \<in> set (bids (book eng))" .
      from book_inv_bid_item [OF inv(1) mem] it have t: "t = timestamp e"
        by (simp add: bid_item_def)
      from mem inv(2) it have dir: "direction (order e) = 1"
        by (force simp: sides_inv_def resting_def)
      from ts_inv_pop_bid [OF inv(3) pop, of ?bk] it t
      have fresh: "timestamp e \<notin> (\<lambda>it. fst (snd it)) ` set h" by simp
      from set_mset_eq [OF heappop_mset [OF pop]] have "set h \<subseteq> set (bids (book eng))" by auto
      with inj(1) have "inj_on key (set h)" by (rule inj_on_subset)
      from inj_key_insert [OF this, of "bid_item ?e'"] fresh
      have "inj_on key (insert (bid_item ?e') (set h))" by (simp add: bid_item_def)
      from heappush_returns [OF this] obtain h2 where "heappush h (bid_item ?e') = Inr h2"
        by blast
      with pos dir show ?thesis
        by (simp add: reinsert_def bid_item_def)
    qed
    then obtain bk1 where "(if remaining ?e' > 0 then reinsert ?bk ?e' else Inr ?bk) = Inr bk1"
      by blast
    with False pop it show ?thesis
      by (simp add: execute_trade_def Let_def pop_best_bid_def)
  qed
qed

lemma process_order_accepted:
  assumes "accepted eng ord"
  shows "process_order eng ord =
     (case matching_loop ord eng (quantity ord) [] of
        Inl e \<Rightarrow> Inl e
      | Inr (eng1, rem, trades) \<Rightarrow>
          if is_valid_price (pl_rule eng1) (price ord) (last_close_price eng1) then
            (case add_limit (book eng1) (ord\<lparr>quantity := rem\<rparr>) of
               Inl e \<Rightarrow> Inl e
             | Inr bk \<Rightarrow> Inr (trades, eng1\<lparr>book := bk\<rparr>))
          else Inr (trades, eng1))"
  using assms by (auto simp: accepted_def process_order_def)

lemma process_order_rejected:
  "\<not> accepted eng ord \<Longrightarrow> process_order eng ord = Inr ([], eng)"
  by (auto simp: accepted_def process_order_def)

text \<open>On a book with the three invariants the engine never raises.\<close>

lemma matching_loop_returns:
  "book_inv (book eng) \<Longrightarrow> sides_inv (book eng) \<Longrightarrow> ts_inv (book eng) \<Longrightarrow>
     \<exists>eng1 rem1 ts1. matching_loop ord eng rem ts = Inr (eng1, rem1, ts1)"
proof (induction ord eng rem ts rule: matching_loop.induct)
  case (1 ord eng rem trades)
  show ?case
  proof (cases "rem > 0")
    case False
    then show ?thesis
      by (simp add: matching_loop.simps [of ord eng rem trades])
  next
    case True
    show ?thesis
    proof (cases "next_match ord eng")
      case None
      with True show ?thesis
        by (simp add: matching_loop.simps [of ord eng rem trades])
    next
      case (Some m)
      obtain be mp where m: "m = (be, mp)" by (cases m)
      from next_match_peek [of ord eng be mp] Some m
      have ne: "opposite_side ord (book eng) \<noteq> []" by simp
      from execute_trade_returns [OF "1.prems" ne, of rem be mp]
      obtain eng2 rem2 trade where
        ex: "execute_trade ord eng rem be mp = Inr (eng2, rem2, trade)" by blast
      note e = execute_trade_inv [OF "1.prems"(1,2) ex]
      note t = execute_trade_ts_inv [OF "1.prems" ex]
      from "1.IH" [OF True Some m [symmetric] ex refl refl] e t
      obtain eng1 rem1 ts1 where
        "matching_loop ord eng2 rem2 (trades @ [trade]) = Inr (eng1, rem1, ts1)" by blast
      with True Some m ex show ?thesis
        by (simp add: matching_loop.simps [of ord eng rem trades])
    qed
  qed
qed

lemma process_order_returns:
  assumes inv: "book_inv (book eng)" "sides_inv (book eng)" "ts_inv (book eng)"
  shows "\<exists>trades eng'. process_order eng ord = Inr (trades, eng')"
proof (cases "accepted eng ord")
  case False
  then show ?thesis by (simp add: process_order_rejected)
next
  case True
  from matching_loop_returns [OF inv, of ord "quantity ord" "[]"]
  obtain eng1 rem trades where
    loop: "matching_loop ord eng (quantity ord) [] = Inr (eng1, rem, trades)" by blast
  from matching_loop_ts_inv [OF loop inv] have "ts_inv (book eng1)" .
  from add_limit_returns [OF this, of "ord\<lparr>quantity := rem\<rparr>"]
  obtain bk where "add_limit (book eng1) (ord\<lparr>quantity := rem\<rparr>) = Inr bk" by blast
  with process_order_accepted [OF True] loop show ?thesis
    by simp
qed

lemma run_engine_returns_inv:
  "book_inv (book eng) \<Longrightarrow> sides_inv (book eng) \<Longrightarrow> ts_inv (book eng) \<Longrightarrow>
     \<exists>eng'. run_engine eng ops = Inr eng'"
proof (induction eng ops rule: run_engine.induct)
  case (1 eng)
  then show ?case by simp
next
  case (2 eng ord ops)
  from process_order_returns [OF "2.prems", of ord] obtain trades eng1 where
    po: "process_order eng ord = Inr (trades, eng1)" by blast
  from process_order_inv [OF po "2.prems"(1,2)] process_order_ts_inv [OF po "2.prems"]
    "2.IH" [OF po refl]
  obtain eng' where "run_engine eng1 ops = Inr eng'" by blast
  with po show ?case by simp
next
  case (3 eng last_close ops)
  from "3.IH" reset_inv [of eng last_close] reset_ts_inv [of eng last_close]
  show ?case by simp
qed

lemma run_engine_returns: "\<exists>eng. run_engine (CDAEngine_init p pl tt) ops = Inr eng"
  by (rule run_engine_returns_inv)
     (simp_all add: CDAEngine_init_def book_inv_init sides_inv_init ts_inv_init)

lemma partial_fill_round:
  assumes reach: "run_engine (CDAEngine_init p0 pl tt) ops = Inr eng"
    and nm: "next_match ord eng = Some (be, mp)"
    and partial: "0 < rem" "rem < remaining be"
    and ex: "execute_trade ord eng rem be mp = Inr (eng1, rem1, trade)"
  shows "rem1 = 0 \<and> trade_quantity trade = rem
    \<and> counter (book eng1) = counter (book eng)
    \<and> own_side ord (book eng1) = own_side ord (book eng)
    \<and> opposite_item ord be \<in># mset (opposite_side ord (book eng))
    \<and> mset (opposite_side ord (book eng1)) =
         add_mset (opposite_item ord (be\<lparr>remaining := remaining be - rem\<rparr>))
           (mset (opposite_side ord (book eng)) - {#opposite_item ord be#})
    \<and> timestamp (be\<lparr>remaining := remaining be - rem\<rparr>) = timestamp be
    \<and> peek_opposite ord (book eng1) = Some (be\<lparr>remaining := remaining be - rem\<rparr>)
    \<and> (\<forall>y \<in> resting (opposite_side ord (book eng1)).
          entry_price y = entry_price be \<longrightarrow> timestamp be \<le> timestamp y)"
proof -
  let ?be' = "be\<lparr>remaining := remaining be - rem\<rparr>"
  note inv = reachable_invs [OF reach]
  note inv1 = execute_trade_inv [OF inv(1,2) ex]
  from partial have qty: "min rem (remaining be) = rem" by simp
  from next_match_peek [OF nm] have be: "be = snd (snd (opposite_side ord (book eng) ! 0))"
    by simp
  from ex show ?thesis
  proof (cases rule: execute_trade_cases)
    case (1 it h bk)
    from heappop_returns_root [OF 1(1)] be have e: "snd (snd it) = be" by simp
    with 1(4) qty partial have re: "reinsert bk ?be' = Inr (book eng1)" by simp
    from 1(3,8) qty have basic: "rem1 = 0" "trade_quantity trade = rem" by simp_all
    note m = heappop_mset [OF 1(1)]
    show ?thesis
    proof (cases "direction ord = 1")
      case True
      with 1(1) have pop: "heappop (asks (book eng)) = Inr (it, h)"
        by (simp add: opposite_side_def)
      from 1(2) True have bk: "asks bk = h" "bids bk = bids (book eng)"
        "counter bk = counter (book eng)" by simp_all
      note p = ts_inv_pop_ask [OF inv(3) pop bk]
      from heappop_root_in_set [OF pop] have mem: "it \<in> set (asks (book eng))" .
      from book_inv_ask_item [OF inv(1) mem] e have it: "it = ask_item be" by simp
      from mem inv(2) e have dir: "direction (order be) \<noteq> 1"
        by (auto simp: sides_inv_def resting_def)
      from re dir partial obtain h2 where push: "heappush h (ask_item ?be') = Inr h2"
        and b1: "book eng1 = bk\<lparr>asks := h2\<rparr>"
        by (cases rule: reinsert_cases) (simp_all add: bk)
      from inv(1) have heap: "is_heap (asks (book eng))" by (simp add: book_inv_def)
      have "key (ask_item ?be') = key it" by (simp add: it key_def ask_item_def)
      from reinsert_root_stays [OF heap pop push this] p
      have root: "h2 \<noteq> []" "h2 ! 0 = ask_item ?be'" by simp_all
      have peek: "peek_opposite ord (book eng1) = Some ?be'"
        using root b1 True by (simp add: peek_opposite_def peek_best_ask_def ask_item_def)
      from inv1 b1 have heap2: "is_heap h2" and items2: "\<forall>x \<in> set h2. x = ask_item (snd (snd x))"
        by (simp_all add: book_inv_def)
      have prio: "timestamp be \<le> timestamp y"
        if "y \<in> resting (opposite_side ord (book eng1))" "entry_price y = entry_price be" for y
        using root_ask(4) [OF heap2 root(1) items2, of y] that root(2) b1 True
        by (simp add: opposite_side_def ask_item_def)
      from m it have m1: "opposite_item ord be \<in># mset (opposite_side ord (book eng))"
        "mset h = mset (opposite_side ord (book eng)) - {#opposite_item ord be#}"
        using True by (simp_all add: opposite_item_def opposite_side_def)
      from heappush_mset [OF push] m1(2) b1 True
      have m2: "mset (opposite_side ord (book eng1)) =
         add_mset (opposite_item ord ?be')
           (mset (opposite_side ord (book eng)) - {#opposite_item ord be#})"
        by (simp add: opposite_item_def opposite_side_def)
      have own: "own_side ord (book eng1) = own_side ord (book eng)"
        "counter (book eng1) = counter (book eng)"
        using b1 bk True by (simp_all add: own_side_def)
      from basic own m1(1) m2 peek prio show ?thesis by simp
    next
      case False
      with 1(1) have pop: "heappop (bids (book eng)) = Inr (it, h)"
        by (simp add: opposite_side_def)
      from 1(2) False have bk: "bids bk = h" "asks bk = asks (book eng)"
        "counter bk = counter (book eng)" by simp_all
      note p = ts_inv_pop_bid [OF inv(3) pop bk]
      from heappop_root_in_set [OF pop] have mem: "it \<in> set (bids (book eng))" .
      from book_inv_bid_item [OF inv(1) mem] e have it: "it = bid_item be" by simp
      from mem inv(2) e have dir: "direction (order be) = 1"
        by (auto simp: sides_inv_def resting_def)
      from re dir partial obtain h2 where push: "heappush h (bid_item ?be') = Inr h2"
        and b1: "book eng1 = bk\<lparr>bids := h2\<rparr>"
        by (cases rule: reinsert_cases) (simp_all add: bk)
      from inv(1) have heap: "is_heap (bids (book eng))" by (simp add: book_inv_def)
      have "key (bid_item ?be') = key it" by (simp add: it key_def bid_item_def)
      from reinsert_root_stays [OF heap pop push this] p
      have root: "h2 \<noteq> []" "h2 ! 0 = bid_item ?be'" by simp_all
      have peek: "peek_opposite ord (book eng1) = Some ?be'"
        using root b1 False by (simp add: peek_opposite_def peek_best_bid_def bid_item_def)
      from inv1 b1 have heap2: "is_heap h2" and items2: "\<forall>x \<in> set h2. x = bid_item (snd (snd x))"
        by (simp_all add: book_inv_def)
      have prio: "timestamp be \<le> timestamp y"
        if "y \<in> resting (opposite_side ord (book eng1))" "entry_price y = entry_price be" for y
        using root_bid(4) [OF heap2 root(1) items2, of y] that root(2) b1 False
        by (simp add: opposite_side_def bid_item_def)
      from m it have m1: "opposite_item ord be \<in># mset (opposite_side ord (book eng))"
        "mset h = mset (opposite_side ord (book eng)) - {#opposite_item ord be#}"
        using False by (simp_all add: opposite_item_def opposite_side_def)
      from heappush_mset [OF push] m1(2) b1 False
      have m2: "mset (opposite_side ord (book eng1)) =
         add_mset (opposite_item ord ?be')
           (mset (opposite_side ord (book eng)) - {#opposite_item ord be#})"
        by (simp add: opposite_item_def opposite_side_def)
      have own: "own_side ord (book eng1) = own_side ord (book eng)"
        "counter (book eng1) = counter (book eng)"
        using b1 bk False by (simp_all add: own_side_def)
      from basic own m1(1) m2 peek prio show ?thesis by simp
    qed
  qed
qed

text \<open>
  C2. One round of the matching loop that fills the best opposite entry only in part,
  on any engine reached from a new one by resets and processed orders (so the entry may
  already have been filled in part any number of times). The round returns without an
  exception and fills the incoming quantity completely. The entry popped is reduced by
  the traded quantity and put back by \<open>reinsert\<close>: the opposite side holds the same
  tuples as before except that this entry has less remaining; its arrival sequence
  number, price and order are the same; the book's counter has not moved; and the entry
  is again the best of its side, ahead of every resting entry at the same price, all of
  which have a sequence number at least as large.
\<close>

theorem partial_fill_keeps_sequence_number:
  assumes reach: "run_engine (CDAEngine_init p0 pl tt) ops = Inr eng"
    and nm: "next_match ord eng = Some (be, mp)"
    and partial: "0 < rem" "rem < remaining be"
  shows "\<exists>eng1 trade.
      execute_trade ord eng rem be mp = Inr (eng1, 0, trade)
    \<and> trade_quantity trade = rem
    \<and> counter (book eng1) = counter (book eng)
    \<and> own_side ord (book eng1) = own_side ord (book eng)
    \<and> opposite_item ord be \<in># mset (opposite_side ord (book eng))
    \<and> mset (opposite_side ord (book eng1)) =
         add_mset (opposite_item ord (be\<lparr>remaining := remaining be - rem\<rparr>))
           (mset (opposite_side ord (book eng)) - {#opposite_item ord be#})
    \<and> timestamp (be\<lparr>remaining := remaining be - rem\<rparr>) = timestamp be
    \<and> peek_opposite ord (book eng1) = Some (be\<lparr>remaining := remaining be - rem\<rparr>)
    \<and> (\<forall>y \<in> resting (opposite_side ord (book eng1)).
          entry_price y = entry_price be \<longrightarrow> timestamp be \<le> timestamp y)"
proof -
  note inv = reachable_invs [OF reach]
  from next_match_peek [OF nm] have "opposite_side ord (book eng) \<noteq> []" by simp
  from execute_trade_returns [OF inv this, of rem be mp] obtain eng1 rem1 trade where
    ex: "execute_trade ord eng rem be mp = Inr (eng1, rem1, trade)" by blast
  note r = partial_fill_round [OF reach nm partial ex]
  from r have "rem1 = 0" by simp
  with ex have "execute_trade ord eng rem be mp = Inr (eng1, 0, trade)" by simp
  with r show ?thesis by blast
qed

lemma example_engine_run:
  "run_engine example_engine [Process scenario_buy] = Inr example_engine_after_buy"
  by code_simp

lemma example_next_match:
  "next_match scenario_sell_3 example_engine_after_buy = Some (example_bid, 10)"
  by code_simp

theorem partial_fill_keeps_sequence_number_witness:
  "run_engine example_engine [Process scenario_buy] = Inr example_engine_after_buy
   \<and> next_match scenario_sell_3 example_engine_after_buy = Some (example_bid, 10)
   \<and> (0::int) < 3 \<and> 3 < remaining example_bid
   \<and> (\<exists>e2 tr. execute_trade scenario_sell_3 example_engine_after_buy 3 example_bid 10
                 = Inr (e2, 0, tr)
          \<and> trade_quantity tr = 3
          \<and> peek_opposite scenario_sell_3 (book e2) = Some (example_bid\<lparr>remaining := 2\<rparr>)
          \<and> timestamp (example_bid\<lparr>remaining := 2\<rparr>) = 1
          \<and> counter (book e2) = 1)"
proof -
  have run: "run_engine (CDAEngine_init (Some 10) \<lparr>pl_enabled = True, threshold = 1 / 10\<rparr>
       \<lparr>tt_enabled = True, rate = 1 / 1000\<rparr>) [Process scenario_buy]
     = Inr example_engine_after_buy"
    using example_engine_run by (simp add: example_engine_def)
  have rem: "(0::int) < 3" "3 < remaining example_bid"
    by (simp_all add: example_bid_def)
  from partial_fill_keeps_sequence_number [OF run example_next_match rem]
  obtain e2 tr where
    th: "execute_trade scenario_sell_3 example_engine_after_buy 3 example_bid 10 = Inr (e2, 0, tr)"
      "trade_quantity tr = 3"
      "counter (book e2) = counter (book example_engine_after_buy)"
      "timestamp (example_bid\<lparr>remaining := remaining example_bid - 3\<rparr>) = timestamp example_bid"
      "peek_opposite scenario_sell_3 (book e2)
         = Some (example_bid\<lparr>remaining := remaining example_bid - 3\<rparr>)"
    by blast
  have c: "counter (book example_engine_after_buy) = 1" "remaining example_bid - 3 = 2"
    "timestamp example_bid = 1"
    by (simp_all add: example_engine_after_buy_def example_bid_def)
  from th c have "peek_opposite scenario_sell_3 (book e2) = Some (example_bid\<lparr>remaining := 2\<rparr>)"
    "timestamp (example_bid\<lparr>remaining := 2\<rparr>) = 1" "counter (book e2) = 1"
    by simp_all
  with th(1,2) example_engine_run example_next_match rem show ?thesis
    by blast
qed

lemma add_limit_rests:
  assumes add: "add_limit b (ord\<lparr>quantity := rem\<rparr>) = Inr b'"
  shows "(rests_on b b' ord rem \<longleftrightarrow> rem > 0 \<and> price ord > 0) \<and> (\<not> rests_on b b' ord rem \<longrightarrow> b' = b)"
  using add
proof (cases rule: add_limit_cases)
  case rejected
  then show ?thesis by (auto simp: rests_on_def)
next
  case (bid h)
  from heappush_mset [OF bid(4)] bid show ?thesis
    by (simp add: rests_on_def own_side_def opposite_side_def own_item_def new_entry_def)
next
  case (ask h)
  from heappush_mset [OF ask(4)] ask show ?thesis
    by (simp add: rests_on_def own_side_def opposite_side_def own_item_def new_entry_def)
qed

lemma matching_loop_keeps:
  "matching_loop ord eng rem ts = Inr (eng1, rem1, ts1) \<Longrightarrow>
     pl_rule eng1 = pl_rule eng \<and> last_close_price eng1 = last_close_price eng"
proof (induction ord eng rem ts rule: matching_loop.induct)
  case (1 ord eng rem trades)
  show ?case
  proof (cases "rem > 0")
    case False
    with "1.prems" show ?thesis
      by (simp add: matching_loop.simps [of ord eng rem trades])
  next
    case True
    show ?thesis
    proof (cases "next_match ord eng")
      case None
      with True "1.prems" show ?thesis
        by (simp add: matching_loop.simps [of ord eng rem trades])
    next
      case (Some m)
      obtain be mp where m: "m = (be, mp)" by (cases m)
      from "1.prems"(1) True Some m obtain eng2 rem2 trade where
        ex: "execute_trade ord eng rem be mp = Inr (eng2, rem2, trade)"
        and rec: "matching_loop ord eng2 rem2 (trades @ [trade]) = Inr (eng1, rem1, ts1)"
        by (auto simp: matching_loop.simps [of ord eng rem trades] split: sum.splits)
      from ex have keep: "pl_rule eng2 = pl_rule eng" "last_close_price eng2 = last_close_price eng"
        by (auto elim: execute_trade_cases)
      from "1.IH" [OF True Some m [symmetric] ex refl refl rec] keep
      show ?thesis by simp
    qed
  qed
qed

text \<open>
  C9. The claim says the remainder rests exactly when its quantity is positive and its
  price passes the price-limit check. With the rule disabled, a market buy of 5 at the
  nominal price 0 on an empty book leaves the loop with 5 unfilled and passes the check
  (a disabled rule accepts every price), yet nothing rests: \<open>add_limit\<close> returns at once
  on a price that is not positive.
\<close>

theorem market_remainder_counterexample:
  "accepted example_engine_unlimited example_market_buy
   \<and> matching_loop example_market_buy example_engine_unlimited (quantity example_market_buy) []
       = Inr (example_engine_unlimited, 5, [])
   \<and> (0::int) < 5
   \<and> is_valid_price (pl_rule example_engine_unlimited) (price example_market_buy)
        (last_close_price example_engine_unlimited)
   \<and> process_order example_engine_unlimited example_market_buy
       = Inr ([], example_engine_unlimited)
   \<and> \<not> rests_on (book example_engine_unlimited) (book example_engine_unlimited)
         example_market_buy 5"
proof -
  have "accepted example_engine_unlimited example_market_buy"
    by code_simp
  moreover have "matching_loop example_market_buy example_engine_unlimited
      (quantity example_market_buy) [] = Inr (example_engine_unlimited, 5, [])"
    by code_simp
  moreover have "is_valid_price (pl_rule example_engine_unlimited) (price example_market_buy)
        (last_close_price example_engine_unlimited)"
    by code_simp
  moreover have "process_order example_engine_unlimited example_market_buy
       = Inr ([], example_engine_unlimited)"
    by code_simp
  moreover have "\<not> rests_on (book example_engine_unlimited) (book example_engine_unlimited)
         example_market_buy 5"
    by (simp add: rests_on_def)
  ultimately show ?thesis by simp
qed

text \<open>
  C9 as amended. For an order that passes the checks at the head of \<open>process_order\<close>,
  with the matching loop ending in engine \<open>eng1\<close> with \<open>rem\<close> unfilled, and
  \<open>process_order\<close> returning: the trades returned are those of the loop; the loop has
  not changed the reference price or the rule; the remainder rests on the book exactly
  when \<open>rem\<close> is positive, the order's price is positive, and the price passes the
  price-limit check against the reference price; otherwise the engine is left as the
  loop left it. In particular an order whose price is zero or negative, such as a
  market order with nominal price zero, never rests, whether the rule is enabled or not.
  On an engine reached from a new one by resets and processed orders both the loop and
  \<open>process_order\<close> do return (\<open>matching_loop_returns\<close>, \<open>process_order_returns\<close>).
\<close>

theorem remainder_rests_iff:
  assumes acc: "accepted eng ord"
    and loop: "matching_loop ord eng (quantity ord) [] = Inr (eng1, rem, trades)"
    and po: "process_order eng ord = Inr (trs, eng2)"
  shows "trs = trades
    \<and> last_close_price eng1 = last_close_price eng \<and> pl_rule eng1 = pl_rule eng
    \<and> (rests_on (book eng1) (book eng2) ord rem \<longleftrightarrow>
          rem > 0 \<and> price ord > 0
          \<and> is_valid_price (pl_rule eng1) (price ord) (last_close_price eng1))
    \<and> (\<not> rests_on (book eng1) (book eng2) ord rem \<longrightarrow> eng2 = eng1)
    \<and> (price ord \<le> 0 \<longrightarrow> \<not> rests_on (book eng1) (book eng2) ord rem \<and> eng2 = eng1)"
proof -
  note keep = matching_loop_keeps [OF loop]
  show ?thesis
  proof (cases "is_valid_price (pl_rule eng1) (price ord) (last_close_price eng1)")
    case False
    with process_order_accepted [OF acc] loop po have "trs = trades" "eng2 = eng1"
      by simp_all
    with False keep show ?thesis
      by (simp add: rests_on_def)
  next
    case True
    with process_order_accepted [OF acc] loop po obtain bk where
      add: "add_limit (book eng1) (ord\<lparr>quantity := rem\<rparr>) = Inr bk"
      and res: "trs = trades" "eng2 = eng1\<lparr>book := bk\<rparr>"
      by (auto split: sum.splits)
    from add_limit_rests [OF add] res True keep show ?thesis
      by auto
  qed
qed

theorem remainder_rests_iff_witness:
  "accepted example_engine scenario_buy
   \<and> matching_loop scenario_buy example_engine (quantity scenario_buy) []
       = Inr (example_engine, 5, [])
   \<and> process_order example_engine scenario_buy = Inr ([], example_engine_after_buy)
   \<and> rests_on (book example_engine) (book example_engine_after_buy) scenario_buy 5
   \<and> accepted example_engine example_market_buy
   \<and> matching_loop example_market_buy example_engine (quantity example_market_buy) []
       = Inr (example_engine, 5, [])
   \<and> process_order example_engine example_market_buy = Inr ([], example_engine)
   \<and> \<not> rests_on (book example_engine) (book example_engine) example_market_buy 5"
proof -
  have a1: "accepted example_engine scenario_buy"
    by code_simp
  have l1: "matching_loop scenario_buy example_engine (quantity scenario_buy) []
       = Inr (example_engine, 5, [])"
    by code_simp
  have p1: "process_order example_engine scenario_buy = Inr ([], example_engine_after_buy)"
    by code_simp
  have v1: "(0::int) < 5 \<and> price scenario_buy > 0
      \<and> is_valid_price (pl_rule example_engine) (price scenario_buy)
            (last_close_price example_engine)"
    by code_simp
  from remainder_rests_iff [OF a1 l1 p1] v1
  have r1: "rests_on (book example_engine) (book example_engine_after_buy) scenario_buy 5"
    by blast
  have a2: "accepted example_engine example_market_buy"
    by code_simp
  have l2: "matching_loop example_market_buy example_engine (quantity example_market_buy) []
       = Inr (example_engine, 5, [])"
    by code_simp
  have p2: "process_order example_engine example_market_buy = Inr ([], example_engine)"
    by code_simp
  have "price example_market_buy \<le> 0"
    by code_simp
  with remainder_rests_iff [OF a2 l2 p2]
  have r2: "\<not> rests_on (book example_engine) (book example_engine) example_market_buy 5"
    by blast
  from a1 l1 p1 r1 a2 l2 p2 r2 show ?thesis by (intro conjI)
qed


end
